theory Spec2Isabelle
  imports Main
begin

section \<open>Parsed XML trees\<close>

text \<open>
  An element as \<^verbatim>\<open>xml.etree.ElementTree\<close> and \<^verbatim>\<open>lxml.etree\<close> hand it to the
  validators: a tag in Clark notation, the attribute dictionary, the text before the
  first child (\<^verbatim>\<open>None\<close> when there is none) and the child elements in order.
  The validators never read the tail text, so it is not part of the model.
\<close>

datatype element =
  Element (tag: string) (attrib: "(string \<times> string) list")
          (elem_text: "string option") (children: "element list")

definition get :: "element \<Rightarrow> string \<Rightarrow> string option" where
  "get e k = map_of (attrib e) k"

text \<open>\<^verbatim>\<open>if elem.text:\<close> holds for a text that is neither \<^verbatim>\<open>None\<close> nor empty.\<close>

definition truthy :: "string option \<Rightarrow> bool" where
  "truthy tx = (case tx of None \<Rightarrow> False | Some s \<Rightarrow> s \<noteq> [])"

text \<open>
  All subelements on all levels beneath an element, in document order, the element
  itself excluded: the range of \<^verbatim>\<open>findall(".//tag")\<close>.
\<close>

fun descendants :: "element \<Rightarrow> element list" where
  "descendants (Element tg at tx cs) = concat (map (\<lambda>c. c # descendants c) cs)"

definition findall :: "string \<Rightarrow> element \<Rightarrow> element list" where
  "findall tg e = filter (\<lambda>x. tag x = tg) (descendants e)"

section \<open>The redlining validator (redlining.py)\<close>

definition w_ns :: string where
  "w_ns = ''http://schemas.openxmlformats.org/wordprocessingml/2006/main''"

definition ins_tag :: string where "ins_tag = ''{'' @ w_ns @ ''}ins''"
definition del_tag :: string where "del_tag = ''{'' @ w_ns @ ''}del''"
definition author_attr :: string where "author_attr = ''{'' @ w_ns @ ''}author''"
definition deltext_tag :: string where "deltext_tag = ''{'' @ w_ns @ ''}delText''"
definition t_tag :: string where "t_tag = ''{'' @ w_ns @ ''}t''"
definition p_tag :: string where "p_tag = ''{'' @ w_ns @ ''}p''"

definition claude_ins :: "element \<Rightarrow> bool" where
  "claude_ins c \<longleftrightarrow> tag c = ins_tag \<and> get c author_attr = Some ''Claude''"

definition claude_del :: "element \<Rightarrow> bool" where
  "claude_del c \<longleftrightarrow> tag c = del_tag \<and> get c author_attr = Some ''Claude''"

subsection \<open>\<^verbatim>\<open>_remove_claude_tracked_changes\<close>\<close>

text \<open>
  The first loop visits every element in document order and removes those of its
  children that are insertions by Claude. \<^verbatim>\<open>root.iter()\<close> reads the child list of an
  element only after the loop body has run on it, so the children visited next are the
  ones that are left. The root is never a child and is never removed.
\<close>

fun remove_ins :: "element \<Rightarrow> element" where
  "remove_ins (Element tg at tx cs) =
     Element tg at tx (map remove_ins (filter (\<lambda>c. \<not> claude_ins c) cs))"

text \<open>
  \<^verbatim>\<open>for elem in del_elem.iter(): if elem.tag == deltext_tag: elem.tag = t_tag\<close>:
  every deleted-text element of the subtree becomes an ordinary text element.
\<close>

fun to_t :: "element \<Rightarrow> element" where
  "to_t (Element tg at tx cs) =
     Element (if tg = deltext_tag then t_tag else tg) at tx (map to_t cs)"

text \<open>
  The body of the second loop on one parent: every child that is a deletion by Claude
  is replaced, at its position, by its own children with their deleted text restored.
\<close>

definition splice :: "element list \<Rightarrow> element list" where
  "splice cs = concat (map (\<lambda>c. if claude_del c then children (to_t c) else [c]) cs)"

lemma size_to_t [simp]: "size (to_t e) = size e"
proof (induction e)
  case (Element tg at tx cs)
  have "size_list size (map to_t cs) = size_list size cs"
    using Element by (induction cs) auto
  then show ?case by simp
qed

lemma size_child: "c \<in> set (children e) \<Longrightarrow> size c < size e"
  by (cases e) (auto simp: less_Suc_eq_le size_list_estimation')

lemma size_splice: "x \<in> set (splice cs) \<Longrightarrow> size x < Suc (size_list size cs)"
proof (induction cs)
  case Nil
  then show ?case by (simp add: splice_def)
next
  case (Cons c cs)
  from Cons.prems have "x \<in> set (if claude_del c then children (to_t c) else [c])
      \<or> x \<in> set (splice cs)"
    by (auto simp: splice_def)
  then show ?case
  proof
    assume "x \<in> set (if claude_del c then children (to_t c) else [c])"
    then have "size x \<le> size c"
      using size_child [of x "to_t c"] by (auto split: if_splits)
    then show ?thesis by simp
  next
    assume "x \<in> set (splice cs)"
    then show ?thesis using Cons.IH by simp
  qed
qed

text \<open>
  The second loop, again in document order on the live tree: the children spliced into
  a parent are visited after it, as parents of their own children.
\<close>

function unwrap_del :: "element \<Rightarrow> element" where
  "unwrap_del (Element tg at tx cs) = Element tg at tx (map unwrap_del (splice cs))"
  by pat_completeness auto
termination
  by (relation "measure size") (auto dest: size_splice)

definition remove_claude_tracked_changes :: "element \<Rightarrow> element" where
  "remove_claude_tracked_changes root = unwrap_del (remove_ins root)"

subsection \<open>\<^verbatim>\<open>_extract_text_content\<close>\<close>

definition text_parts :: "element \<Rightarrow> string list" where
  "text_parts p_elem =
     map (\<lambda>t_elem. the (elem_text t_elem))
       (filter (\<lambda>t_elem. truthy (elem_text t_elem)) (findall t_tag p_elem))"

definition paragraphs :: "element \<Rightarrow> string list" where
  "paragraphs root = map (\<lambda>p_elem. concat (text_parts p_elem)) (findall p_tag root)"

fun join :: "string \<Rightarrow> string list \<Rightarrow> string" where
  "join sep [] = []"
| "join sep [x] = x"
| "join sep (x # y # ys) = x @ sep @ join sep (y # ys)"

definition extract_text_content :: "element \<Rightarrow> string" where
  "extract_text_content root = join [CHR 0x0A] (paragraphs root)"

subsection \<open>\<^verbatim>\<open>RedliningValidator.validate\<close>\<close>

text \<open>
  What the validator finds on disk: a file that is absent, one that the XML parser
  rejects, or one that parses to a tree; the original package either cannot be
  unpacked or yields the state of its \<^verbatim>\<open>word/document.xml\<close>.
\<close>

datatype 'a xml_file = Missing | Malformed | Parsed 'a

datatype docx_package = BadZip | Unpacked "element xml_file"

record redlining_validator =
  modified_file :: "element xml_file"
  original_docx :: docx_package
  verbose :: bool

text \<open>The lines the validator prints; the failure on a mismatch carries the diff text.\<close>

datatype message =
    ModifiedNotFound
  | PassedNoTrackedChanges
  | ErrorUnpackingOriginal
  | OriginalNotFound
  | ErrorParsingXml
  | TextMismatch string
  | PassedAllTracked

definition claude_del_elements :: "element \<Rightarrow> element list" where
  "claude_del_elements root =
     filter (\<lambda>elem. get elem author_attr = Some ''Claude'') (findall del_tag root)"

definition claude_ins_elements :: "element \<Rightarrow> element list" where
  "claude_ins_elements root =
     filter (\<lambda>elem. get elem author_attr = Some ''Claude'') (findall ins_tag root)"

text \<open>
  The first \<^verbatim>\<open>try\<close> block: true when the modified file parses and holds no tracked
  change by Claude; a parse error is swallowed and the validation goes on.
\<close>

definition no_claude_changes :: "element xml_file \<Rightarrow> bool" where
  "no_claude_changes f =
     (case f of
        Parsed root \<Rightarrow> claude_del_elements root = [] \<and> claude_ins_elements root = []
      | _ \<Rightarrow> False)"

text \<open>
  \<open>unified_diff original_text modified_text\<close> stands for the text that
  \<^verbatim>\<open>difflib.unified_diff\<close> renders from the lines of the two texts.
\<close>

definition compare_texts ::
  "(string \<Rightarrow> string \<Rightarrow> string) \<Rightarrow> bool \<Rightarrow> element \<Rightarrow> element \<Rightarrow> bool \<times> message list" where
  "compare_texts unified_diff vb modified_root original_root =
     (let original_root = remove_claude_tracked_changes original_root;
          modified_root = remove_claude_tracked_changes modified_root;
          modified_text = extract_text_content modified_root;
          original_text = extract_text_content original_root
      in if modified_text \<noteq> original_text
         then (False, [TextMismatch (unified_diff original_text modified_text)])
         else (True, if vb then [PassedAllTracked] else []))"

definition redlining_validate ::
  "(string \<Rightarrow> string \<Rightarrow> string) \<Rightarrow> redlining_validator \<Rightarrow> bool \<times> message list" where
  "redlining_validate unified_diff v =
     (if modified_file v = Missing then (False, [ModifiedNotFound])
      else if no_claude_changes (modified_file v)
      then (True, if verbose v then [PassedNoTrackedChanges] else [])
      else
        (case original_docx v of
           BadZip \<Rightarrow> (False, [ErrorUnpackingOriginal])
         | Unpacked Missing \<Rightarrow> (False, [OriginalNotFound])
         | Unpacked original \<Rightarrow>
             (case (modified_file v, original) of
                (Parsed modified_root, Parsed original_root) \<Rightarrow>
                  compare_texts unified_diff (verbose v) modified_root original_root
              | _ \<Rightarrow> (False, [ErrorParsingXml]))))"

section \<open>The DOCX schema validator (docx.py)\<close>

text \<open>
  The checks inherited from the base validator are not part of this module; each is
  represented by the outcome it returns. \<open>xml_files\<close> pairs the name of every XML
  file of the unpacked package with what parsing it gives, \<open>original_file\<close> is the
  original package, and \<open>XML_NAMESPACE\<close> is the base validator's constant.
\<close>

record docx_validator =
  validate_xml :: bool
  validate_unique_ids :: bool
  validate_file_references :: bool
  validate_content_types :: bool
  validate_against_xsd :: bool
  validate_all_relationship_ids :: bool
  xml_files :: "(string \<times> element xml_file) list"
  original_file :: docx_package
  XML_NAMESPACE :: string

datatype violation =
    WhitespaceViolation string string
  | DeletionViolation string string
  | FileError string

text \<open>\<^verbatim>\<open>root.iter(tag)\<close>: the element itself and its descendants, those with the tag.\<close>

definition iter_tag :: "string \<Rightarrow> element \<Rightarrow> element list" where
  "iter_tag tg root = filter (\<lambda>x. tag x = tg) (root # descendants root)"

text \<open>
  \<^verbatim>\<open>\s\<close> on a \<^verbatim>\<open>str\<close> pattern: the whitespace characters, here those with a code
  below 256.
\<close>

definition is_space :: "char \<Rightarrow> bool" where
  "is_space c \<longleftrightarrow> (of_char c :: nat) \<in> {9, 10, 11, 12, 13, 28, 29, 30, 31, 32, 133, 160}"

text \<open>
  \<^verbatim>\<open>re.match(r"^\s.*", text)\<close>: a whitespace character at the start; the rest of the
  pattern matches the empty string.
\<close>

definition match_leading :: "string \<Rightarrow> bool" where
  "match_leading s = (case s of [] \<Rightarrow> False | c # _ \<Rightarrow> is_space c)"

text \<open>
  \<^verbatim>\<open>re.match(r".*\s$", text)\<close>: from the start of the text, \<^verbatim>\<open>.\<close> takes any character
  but a newline, then a whitespace character must stand at the end of the text or just
  before a newline that ends it.
\<close>

fun match_trailing :: "string \<Rightarrow> bool" where
  "match_trailing [] = False"
| "match_trailing (c # cs) =
     ((c \<noteq> CHR 0x0A \<and> match_trailing cs) \<or> (is_space c \<and> (cs = [] \<or> cs = [CHR 0x0A])))"

text \<open>\<open>repr\<close> stands for Python's \<^verbatim>\<open>repr\<close> of a string.\<close>

definition text_preview :: "(string \<Rightarrow> string) \<Rightarrow> string \<Rightarrow> string" where
  "text_preview repr s = (if length (repr s) > 50 then take 50 (repr s) @ ''...'' else repr s)"

definition xml_space_attr :: "docx_validator \<Rightarrow> string" where
  "xml_space_attr v = ''{'' @ XML_NAMESPACE v @ ''}space''"

definition whitespace_flagged :: "docx_validator \<Rightarrow> element \<Rightarrow> bool" where
  "whitespace_flagged v elem \<longleftrightarrow>
     truthy (elem_text elem) \<and>
     (match_leading (the (elem_text elem)) \<or> match_trailing (the (elem_text elem))) \<and>
     get elem (xml_space_attr v) \<noteq> Some ''preserve''"

definition whitespace_errors ::
  "(string \<Rightarrow> string) \<Rightarrow> docx_validator \<Rightarrow> string \<Rightarrow> element \<Rightarrow> violation list" where
  "whitespace_errors repr v name root =
     map (\<lambda>elem. WhitespaceViolation name (text_preview repr (the (elem_text elem))))
       (filter (whitespace_flagged v) (iter_tag t_tag root))"

text \<open>
  Both scans look at the files named \<^verbatim>\<open>document.xml\<close> only; a file that cannot be
  parsed adds one error to the scan that met it.
\<close>

definition scan_files ::
  "(string \<Rightarrow> element \<Rightarrow> violation list) \<Rightarrow> (string \<times> element xml_file) list \<Rightarrow> violation list" where
  "scan_files scan files =
     concat (map (\<lambda>(name, f).
       if name \<noteq> ''document.xml'' then []
       else (case f of Parsed root \<Rightarrow> scan name root | _ \<Rightarrow> [FileError name])) files)"

definition validate_whitespace_preservation ::
  "(string \<Rightarrow> string) \<Rightarrow> docx_validator \<Rightarrow> bool \<times> violation list" where
  "validate_whitespace_preservation repr v =
     (let errors = scan_files (whitespace_errors repr v) (xml_files v)
      in (errors = [], errors))"

text \<open>
  The XPath \<^verbatim>\<open>.//w:del//w:t\<close> selects, once each and in document order, the
  \<^verbatim>\<open>w:t\<close> elements that have a \<^verbatim>\<open>w:del\<close> ancestor below the context node.
  \<open>select_t inside e\<close> collects them in the subtree of \<open>e\<close>, where \<open>inside\<close> tells
  whether \<open>e\<close> has such an ancestor.
\<close>

fun select_t :: "bool \<Rightarrow> element \<Rightarrow> element list" where
  "select_t inside (Element tg at tx cs) =
     (if inside \<and> tg = t_tag then [Element tg at tx cs] else []) @
     concat (map (select_t (inside \<or> tg = del_tag)) cs)"

definition xpath_del_t :: "element \<Rightarrow> element list" where
  "xpath_del_t root = concat (map (select_t False) (children root))"

definition deletion_errors ::
  "(string \<Rightarrow> string) \<Rightarrow> string \<Rightarrow> element \<Rightarrow> violation list" where
  "deletion_errors repr name root =
     map (\<lambda>t_elem. DeletionViolation name (text_preview repr (the (elem_text t_elem))))
       (filter (\<lambda>t_elem. truthy (elem_text t_elem)) (xpath_del_t root))"

definition validate_deletions ::
  "(string \<Rightarrow> string) \<Rightarrow> docx_validator \<Rightarrow> bool \<times> violation list" where
  "validate_deletions repr v =
     (let errors = scan_files (deletion_errors repr) (xml_files v)
      in (errors = [], errors))"

subsection \<open>Paragraph counts\<close>

text \<open>
  The count of the unpacked document is the one of the last \<^verbatim>\<open>document.xml\<close> that
  parses; a file that does not parse leaves the count as it is.
\<close>

definition count_paragraphs_in_unpacked :: "docx_validator \<Rightarrow> nat" where
  "count_paragraphs_in_unpacked v =
     fold (\<lambda>(name, f) count.
       if name \<noteq> ''document.xml'' then count
       else (case f of Parsed root \<Rightarrow> length (findall p_tag root) | _ \<Rightarrow> count))
     (xml_files v) 0"

definition count_paragraphs_in_original :: "docx_validator \<Rightarrow> nat" where
  "count_paragraphs_in_original v =
     (case original_file v of
        Unpacked (Parsed root) \<Rightarrow> length (findall p_tag root)
      | _ \<Rightarrow> 0)"

subsection \<open>\<^verbatim>\<open>DOCXSchemaValidator.validate\<close>\<close>

datatype check =
    XmlWellFormed | UniqueIds | FileReferences | ContentTypes | XsdSchema
  | WhitespacePreservation | Deletions | RelationshipIds

text \<open>
  What a run leaves behind: for every check that ran, its outcome (with the violations
  it printed, for the two scans of this module), and the paragraph line with the
  original count, the new count and their difference.
\<close>

datatype report =
    Inherited check bool
  | Scanned check bool "violation list"
  | Paragraphs nat nat int

definition compare_paragraph_counts :: "docx_validator \<Rightarrow> report" where
  "compare_paragraph_counts v =
     (let original_count = count_paragraphs_in_original v;
          new_count = count_paragraphs_in_unpacked v;
          diff = int new_count - int original_count
      in Paragraphs original_count new_count diff)"

definition docx_validate ::
  "(string \<Rightarrow> string) \<Rightarrow> docx_validator \<Rightarrow> bool \<times> report list" where
  "docx_validate repr v =
     (if \<not> validate_xml v then (False, [Inherited XmlWellFormed False])
      else
        (let all_valid = True;
             all_valid = (if \<not> validate_unique_ids v then False else all_valid);
             all_valid = (if \<not> validate_file_references v then False else all_valid);
             all_valid = (if \<not> validate_content_types v then False else all_valid);
             all_valid = (if \<not> validate_against_xsd v then False else all_valid);
             whitespace = validate_whitespace_preservation repr v;
             all_valid = (if \<not> fst whitespace then False else all_valid);
             deletions = validate_deletions repr v;
             all_valid = (if \<not> fst deletions then False else all_valid);
             all_valid = (if \<not> validate_all_relationship_ids v then False else all_valid)
         in (all_valid,
             [Inherited XmlWellFormed True,
              Inherited UniqueIds (validate_unique_ids v),
              Inherited FileReferences (validate_file_references v),
              Inherited ContentTypes (validate_content_types v),
              Inherited XsdSchema (validate_against_xsd v),
              Scanned WhitespacePreservation (fst whitespace) (snd whitespace),
              Scanned Deletions (fst deletions) (snd deletions),
              Inherited RelationshipIds (validate_all_relationship_ids v),
              compare_paragraph_counts v])))"

section \<open>The resolver on element objects\<close>

text \<open>
  \<^verbatim>\<open>_remove_claude_tracked_changes\<close> returns nothing: it changes the element objects of
  the tree it is given. Here an element object is a \<open>node\<close> at an address of the store,
  and its child list holds the addresses of its children.
\<close>

type_synonym addr = nat

record node =
  ntag :: string
  nattrib :: "(string \<times> string) list"
  ntext :: "string option"
  kids :: "addr list"

type_synonym store = "addr \<Rightarrow> node option"

text \<open>
  \<^verbatim>\<open>for parent in root.iter(): body\<close>. The iterator yields an element, the body runs
  on it, and only then the iterator walks the child list of that element, by index, on
  the list as it is at that moment. The first argument after the body is fuel: the
  result is \<open>None\<close> when the fuel runs out before the walk ends, or when an address
  has no object (which no Python reference does).
\<close>

fun iter_pass :: "(nat \<Rightarrow> store \<Rightarrow> addr \<Rightarrow> store option) \<Rightarrow> nat \<Rightarrow> addr \<Rightarrow> store \<Rightarrow> store option"
and iter_kids :: "(nat \<Rightarrow> store \<Rightarrow> addr \<Rightarrow> store option) \<Rightarrow> nat \<Rightarrow> addr \<Rightarrow> nat \<Rightarrow> store \<Rightarrow> store option"
where
  "iter_pass body 0 elem s = None"
| "iter_pass body (Suc n) elem s =
     (case body n s elem of None \<Rightarrow> None | Some s1 \<Rightarrow> iter_kids body n elem 0 s1)"
| "iter_kids body 0 elem i s = None"
| "iter_kids body (Suc n) elem i s =
     (case s elem of
        None \<Rightarrow> None
      | Some nd \<Rightarrow>
          if i < length (kids nd)
          then (case iter_pass body n (kids nd ! i) s of
                  None \<Rightarrow> None
                | Some s' \<Rightarrow> iter_kids body n elem (Suc i) s')
          else Some s)"

text \<open>
  The body of the first loop: \<^verbatim>\<open>to_remove\<close> is collected from the child list, then
  \<^verbatim>\<open>parent.remove(elem)\<close> takes out the first occurrence of each.
\<close>

definition claude_ins_at :: "store \<Rightarrow> addr \<Rightarrow> bool" where
  "claude_ins_at s child =
     (case s child of
        None \<Rightarrow> False
      | Some nd \<Rightarrow> ntag nd = ins_tag \<and> map_of (nattrib nd) author_attr = Some ''Claude'')"

definition remove_child :: "addr \<Rightarrow> addr \<Rightarrow> store \<Rightarrow> store" where
  "remove_child parent elem s =
     (case s parent of None \<Rightarrow> s | Some nd \<Rightarrow> s(parent \<mapsto> nd\<lparr>kids := remove1 elem (kids nd)\<rparr>))"

definition remove_ins_body :: "nat \<Rightarrow> store \<Rightarrow> addr \<Rightarrow> store option" where
  "remove_ins_body n s parent =
     (case s parent of
        None \<Rightarrow> None
      | Some nd \<Rightarrow>
          (let to_remove = filter (claude_ins_at s) (kids nd)
           in Some (fold (remove_child parent) to_remove s)))"

text \<open>
  The body of the second loop. \<^verbatim>\<open>to_process\<close> pairs every child that is a deletion
  by Claude with its index in the child list; in reverse order, each has the deleted
  text of its subtree renamed (a walk of its own, \<^verbatim>\<open>del_elem.iter()\<close>), its children
  inserted at its index, last child first, and is then removed from the parent.
  \<^verbatim>\<open>list.insert\<close> at an index beyond the end appends, as \<open>take\<close> and \<open>drop\<close> do.
\<close>

definition claude_del_at :: "store \<Rightarrow> addr \<Rightarrow> bool" where
  "claude_del_at s child =
     (case s child of
        None \<Rightarrow> False
      | Some nd \<Rightarrow> ntag nd = del_tag \<and> map_of (nattrib nd) author_attr = Some ''Claude'')"

definition insert_child :: "addr \<Rightarrow> nat \<Rightarrow> addr \<Rightarrow> store \<Rightarrow> store" where
  "insert_child parent i child s =
     (case s parent of
        None \<Rightarrow> s
      | Some nd \<Rightarrow> s(parent \<mapsto> nd\<lparr>kids := take i (kids nd) @ child # drop i (kids nd)\<rparr>))"

definition rename_body :: "nat \<Rightarrow> store \<Rightarrow> addr \<Rightarrow> store option" where
  "rename_body n s elem =
     (case s elem of
        None \<Rightarrow> None
      | Some nd \<Rightarrow> Some (if ntag nd = deltext_tag then s(elem \<mapsto> nd\<lparr>ntag := t_tag\<rparr>) else s))"

fun index_of :: "'a \<Rightarrow> 'a list \<Rightarrow> nat" where
  "index_of x [] = 0"
| "index_of x (y # ys) = (if x = y then 0 else Suc (index_of x ys))"

fun fold_option :: "('a \<Rightarrow> 's \<Rightarrow> 's option) \<Rightarrow> 'a list \<Rightarrow> 's \<Rightarrow> 's option" where
  "fold_option f [] s = Some s"
| "fold_option f (x # xs) s = (case f x s of None \<Rightarrow> None | Some s' \<Rightarrow> fold_option f xs s')"

definition process_del :: "nat \<Rightarrow> addr \<Rightarrow> addr \<times> nat \<Rightarrow> store \<Rightarrow> store option" where
  "process_del n parent = (\<lambda>(del_elem, del_index) s.
     case iter_pass rename_body n del_elem s of
       None \<Rightarrow> None
     | Some s1 \<Rightarrow>
         (case s1 del_elem of
            None \<Rightarrow> None
          | Some dn \<Rightarrow>
              Some (remove_child parent del_elem
                (fold (insert_child parent del_index) (rev (kids dn)) s1))))"

definition unwrap_del_body :: "nat \<Rightarrow> store \<Rightarrow> addr \<Rightarrow> store option" where
  "unwrap_del_body n s parent =
     (case s parent of
        None \<Rightarrow> None
      | Some nd \<Rightarrow>
          (let to_process = map (\<lambda>child. (child, index_of child (kids nd)))
                              (filter (claude_del_at s) (kids nd))
           in fold_option (process_del n parent) (rev to_process) s))"

definition remove_claude_tracked_changes_in_place :: "nat \<Rightarrow> store \<Rightarrow> addr \<Rightarrow> store option" where
  "remove_claude_tracked_changes_in_place n s root =
     (case iter_pass remove_ins_body n root s of
        None \<Rightarrow> None
      | Some s1 \<Rightarrow> iter_pass unwrap_del_body n root s1)"

section \<open>Notions used in the statements and proofs\<close>

subsection \<open>The projection by recursion\<close>

text \<open>
  The text projection written by recursion on the tree: \<open>texts e\<close> lists the texts of
  the ordinary text elements below \<open>e\<close>, \<open>paras e\<close> the paragraph strings below \<open>e\<close>.
  \<open>restore e\<close> turns deleted text into ordinary text inside every deletion by Claude
  below \<open>e\<close> and leaves the markers where they are; \<open>ins_free e\<close> says that no
  insertion by Claude lies below \<open>e\<close>.
\<close>

definition own_text :: "element \<Rightarrow> string list" where
  "own_text c = (if tag c = t_tag \<and> truthy (elem_text c) then [the (elem_text c)] else [])"

fun texts :: "element \<Rightarrow> string list" where
  "texts (Element tg at tx cs) = concat (map (\<lambda>c. own_text c @ texts c) cs)"

definition para_head :: "element \<Rightarrow> string list" where
  "para_head c = (if tag c = p_tag then [concat (texts c)] else [])"

fun paras :: "element \<Rightarrow> string list" where
  "paras (Element tg at tx cs) = concat (map (\<lambda>c. para_head c @ paras c) cs)"

fun restore :: "element \<Rightarrow> element" where
  "restore (Element tg at tx cs) =
     Element tg at tx (map (\<lambda>c. if claude_del c then to_t c else restore c) cs)"

fun ins_free :: "element \<Rightarrow> bool" where
  "ins_free (Element tg at tx cs) = (\<forall>c\<in>set cs. \<not> claude_ins c \<and> ins_free c)"



subsection \<open>Tracked edits of a document\<close>

text \<open>
  \<open>clean e\<close>: no element of the tree is a deleted-text element or an insertion by
  Claude; markers of other authors and deletions by Claude may occur. \<open>mark_deleted\<close>
  writes the text elements of a subtree as deleted text, as the content of a deletion
  marker is written.

  \<open>edit_forest cs cs'\<close>: the child sequence \<open>cs'\<close> is \<open>cs\<close> with tracked changes by
  Claude added. An element is kept with its tag, attributes and text, and its children
  are edited in turn; an insertion by Claude, with any content, is put anywhere; a run
  of children, edited in turn, is wrapped in a deletion by Claude and marked as deleted.
  \<open>tracked_edit original edited\<close> says so of two documents with the same root.
\<close>

fun mark_deleted :: "element \<Rightarrow> element" where
  "mark_deleted (Element tg at tx cs) =
     Element (if tg = t_tag then deltext_tag else tg) at tx (map mark_deleted cs)"




text \<open>
  \<open>free_descendants e\<close>: the elements below \<open>e\<close> that neither are nor lie inside an
  insertion or deletion by Claude.
\<close>

fun free_descendants :: "element \<Rightarrow> element list" where
  "free_descendants (Element tg at tx cs) =
     concat (map (\<lambda>c. if claude_ins c \<or> claude_del c then [] else c # free_descendants c) cs)"

text \<open>
  \<open>outside_insertions e\<close>: the elements below \<open>e\<close>, in document order, that neither are
  nor lie inside an insertion by Claude. \<open>deleted_descendants e\<close>: those of them that lie
  inside a deletion by Claude and are not themselves a deletion by Claude; the scan
  \<open>inside_deletions\<close> carries a flag that is set below the first deletion by Claude.
\<close>

fun outside_insertions :: "element \<Rightarrow> element list" where
  "outside_insertions (Element tg at tx cs) =
     concat (map (\<lambda>c. if claude_ins c then [] else c # outside_insertions c) cs)"

fun inside_deletions :: "bool \<Rightarrow> element \<Rightarrow> element list" where
  "inside_deletions inside (Element tg at tx cs) =
     concat (map (\<lambda>c. if claude_ins c then []
                      else if claude_del c then inside_deletions True c
                      else (if inside then [c] else []) @ inside_deletions inside c) cs)"

definition deleted_descendants :: "element \<Rightarrow> element list" where
  "deleted_descendants e = inside_deletions False e"

text \<open>
  \<open>other_marker x\<close>: \<open>x\<close> is an insertion or deletion marker of an author other than
  Claude. \<open>shell x\<close> is the marker node itself, its tag, attributes and text, and
  \<open>markers_of xs\<close> lists the marker nodes of other authors among \<open>xs\<close>, in order.
\<close>

definition other_marker :: "element \<Rightarrow> bool" where
  "other_marker x \<longleftrightarrow>
     (tag x = ins_tag \<or> tag x = del_tag) \<and> get x author_attr \<noteq> Some ''Claude''"

definition shell :: "element \<Rightarrow> string \<times> (string \<times> string) list \<times> string option" where
  "shell x = (tag x, attrib x, elem_text x)"

definition markers_of :: "element list \<Rightarrow> (string \<times> (string \<times> string) list \<times> string option) list" where
  "markers_of xs = map shell (filter other_marker xs)"

text \<open>
  \<open>flat_dels e\<close>: below \<open>e\<close>, no deletion by Claude has a deletion by Claude as a
  child.
\<close>

fun flat_dels :: "element \<Rightarrow> bool" where
  "flat_dels (Element tg at tx cs) \<longleftrightarrow>
     (\<forall>c\<in>set cs. (claude_del c \<longrightarrow> (\<forall>k\<in>set (children c). \<not> claude_del k)) \<and> flat_dels c)"

subsection \<open>The checks named in a report\<close>

fun check_of :: "report \<Rightarrow> check option" where
  "check_of (Inherited c ok) = Some c"
| "check_of (Scanned c ok errors) = Some c"
| "check_of (Paragraphs original_count new_count diff) = None"

definition checks_run :: "report list \<Rightarrow> check list" where
  "checks_run reports = List.map_filter check_of reports"

subsection \<open>Trees held by a store\<close>

text \<open>
  A tree with the address of each of its element objects. \<open>holds s t\<close>: the store has,
  at each address of \<open>t\<close>, the object that \<open>t\<close> shows there, with the child addresses
  in order. When the addresses of \<open>t\<close> are distinct, no object is shared or its own
  descendant. \<open>erase\<close> forgets the addresses.
\<close>

datatype ltree =
  LNode (addr_of: addr) (ltag: string) (lattrib: "(string \<times> string) list")
        (ltext: "string option") (lkids: "ltree list")

fun erase :: "ltree \<Rightarrow> element" where
  "erase (LNode a tg at tx cs) = Element tg at tx (map erase cs)"

fun addrs :: "ltree \<Rightarrow> addr list" where
  "addrs (LNode a tg at tx cs) = a # concat (map addrs cs)"

fun holds :: "store \<Rightarrow> ltree \<Rightarrow> bool" where
  "holds s (LNode a tg at tx cs) \<longleftrightarrow>
     s a = Some \<lparr>ntag = tg, nattrib = at, ntext = tx, kids = map addr_of cs\<rparr> \<and>
     (\<forall>c\<in>set cs. holds s c)"

text \<open>
  \<open>finishes f r\<close>: with enough fuel the run \<open>f\<close> returns \<open>r\<close>. \<open>frame s s' as\<close>: the
  stores agree outside the addresses \<open>as\<close>. \<open>object_after\<close> reads an object in the
  store a run returns.
\<close>

definition finishes :: "(nat \<Rightarrow> 'a option) \<Rightarrow> 'a \<Rightarrow> bool" where
  "finishes f r \<longleftrightarrow> (\<exists>n. \<forall>m\<ge>n. f m = Some r)"

definition frame :: "store \<Rightarrow> store \<Rightarrow> addr list \<Rightarrow> bool" where
  "frame s s' as \<longleftrightarrow> (\<forall>x. x \<notin> set as \<longrightarrow> s' x = s x)"

definition object_after :: "store option \<Rightarrow> addr \<Rightarrow> node option" where
  "object_after r a = (case r of None \<Rightarrow> None | Some s \<Rightarrow> s a)"

text \<open>
  \<open>trav g t t'\<close>: \<open>t'\<close> comes from \<open>t\<close> by applying \<open>g\<close> at the root and then, in the same
  way, to each child that \<open>g\<close> left there. \<open>simulates body t t'\<close>: on any store that
  holds \<open>t\<close> the walk with that body ends, the store then holds \<open>t'\<close> at the same root,
  and nothing outside \<open>t\<close> has changed.
\<close>

inductive trav :: "(ltree \<Rightarrow> ltree) \<Rightarrow> ltree \<Rightarrow> ltree \<Rightarrow> bool" for g where
  "g t = LNode a tg at tx cs \<Longrightarrow> list_all2 (trav g) cs cs' \<Longrightarrow> trav g t (LNode a tg at tx cs')"

definition simulates :: "(nat \<Rightarrow> store \<Rightarrow> addr \<Rightarrow> store option) \<Rightarrow> ltree \<Rightarrow> ltree \<Rightarrow> bool" where
  "simulates body t t' \<longleftrightarrow>
     (distinct (addrs t) \<longrightarrow>
        addr_of t' = addr_of t \<and> set (addrs t') \<subseteq> set (addrs t) \<and> distinct (addrs t') \<and>
        (\<forall>s. holds s t \<longrightarrow>
           (\<exists>s'. finishes (\<lambda>m. iter_pass body m (addr_of t) s) s' \<and> holds s' t' \<and>
                 frame s s' (addrs t))))"

text \<open>
  What the three loop bodies do to the tree at one element, and the renaming of a whole
  subtree; \<open>entries\<close> is the \<^verbatim>\<open>to_process\<close> list of a parent in terms of the tree.
\<close>

fun rename_step :: "ltree \<Rightarrow> ltree" where
  "rename_step (LNode a tg at tx cs) =
     LNode a (if tg = deltext_tag then t_tag else tg) at tx cs"

fun to_t_l :: "ltree \<Rightarrow> ltree" where
  "to_t_l (LNode a tg at tx cs) =
     LNode a (if tg = deltext_tag then t_tag else tg) at tx (map to_t_l cs)"

fun ins_step :: "ltree \<Rightarrow> ltree" where
  "ins_step (LNode a tg at tx cs) = LNode a tg at tx (filter (\<lambda>c. \<not> claude_ins (erase c)) cs)"

definition splice_l :: "ltree list \<Rightarrow> ltree list" where
  "splice_l cs = concat (map (\<lambda>c. if claude_del (erase c) then lkids (to_t_l c) else [c]) cs)"

fun del_step :: "ltree \<Rightarrow> ltree" where
  "del_step (LNode a tg at tx cs) = LNode a tg at tx (splice_l cs)"

definition entries :: "addr list \<Rightarrow> ltree list \<Rightarrow> (addr \<times> nat) list" where
  "entries ks cs =
     map (\<lambda>c. (addr_of c, index_of (addr_of c) ks)) (filter (\<lambda>c. claude_del (erase c)) cs)"

section \<open>Example documents\<close>

definition r_tag :: string where "r_tag = ''{'' @ w_ns @ ''}r''"
definition document_tag :: string where "document_tag = ''{'' @ w_ns @ ''}document''"

definition document :: "element list \<Rightarrow> element" where
  "document cs = Element document_tag [] None cs"

definition para :: "element list \<Rightarrow> element" where
  "para cs = Element p_tag [] None cs"

definition run :: "string \<Rightarrow> string \<Rightarrow> element" where
  "run tg s = Element r_tag [] None [Element tg [] (Some s) []]"

definition marker :: "string \<Rightarrow> string \<Rightarrow> element list \<Rightarrow> element" where
  "marker tg author cs = Element tg [(author_attr, author)] None cs"

lemmas example_defs =
  document_def para_def run_def marker_def r_tag_def document_tag_def
  ins_tag_def del_tag_def deltext_tag_def t_tag_def p_tag_def author_attr_def w_ns_def

lemmas eval_defs =
  remove_claude_tracked_changes_def splice_def claude_ins_def claude_del_def get_def
  claude_del_elements_def claude_ins_elements_def findall_def
  paragraphs_def text_parts_def truthy_def extract_text_content_def






definition cross_author :: element where
  "cross_author = document [para
     [marker ins_tag ''Bob'' [marker del_tag ''Claude'' [marker del_tag ''Bob'' [run deltext_tag ''x'']]],
      marker ins_tag ''Claude'' [marker ins_tag ''Bob'' [run t_tag ''y'']]]]"

definition other_in_insertion :: element where
  "other_in_insertion = document [para [marker ins_tag ''Claude''
     [marker ins_tag ''Bob'' [run t_tag ''x'']]]]"

definition other_in_deletion :: element where
  "other_in_deletion = document [para [marker del_tag ''Claude''
     [marker del_tag ''Bob'' [run deltext_tag ''x'']]]]"

definition nested_same_author :: element where
  "nested_same_author = document [para [marker del_tag ''Claude''
     [marker del_tag ''Claude'' [run deltext_tag ''x'']]]]"

definition hello_world :: element where
  "hello_world = document [para [run t_tag ''Hello world.'']]"

definition hello_untracked :: element where
  "hello_untracked = document [para [run t_tag ''Hello there.'']]"

definition hello_half_tracked :: element where
  "hello_half_tracked = document [para [run t_tag ''Hello there.'',
     marker ins_tag ''Claude'' [run t_tag ''!'']]]"

definition example_validator ::
  "bool \<Rightarrow> bool \<Rightarrow> (string \<times> element xml_file) list \<Rightarrow> docx_package \<Rightarrow> docx_validator" where
  "example_validator well_formed inherited files original =
     \<lparr>validate_xml = well_formed, validate_unique_ids = inherited,
      validate_file_references = inherited, validate_content_types = inherited,
      validate_against_xsd = inherited, validate_all_relationship_ids = inherited,
      xml_files = files, original_file = original,
      XML_NAMESPACE = ''http://www.w3.org/XML/1998/namespace''\<rparr>"

definition one_paragraph :: element where
  "one_paragraph = document [para [run t_tag ''one'']]"

definition two_paragraphs :: element where
  "two_paragraphs = document [para [run t_tag ''one''], para [run t_tag ''two'']]"

definition hello_deleted :: "string \<Rightarrow> element" where
  "hello_deleted author = document [para [marker del_tag author [run t_tag ''hello'']]]"

definition two_deleted :: element where
  "two_deleted = document [para [marker del_tag ''Bob''
     [run t_tag ''one'', marker ins_tag ''Claude'' [run t_tag ''two'', run deltext_tag ''three'']]]]"

definition empty_text_deleted :: element where
  "empty_text_deleted = document [para [marker del_tag ''Claude''
     [Element r_tag [] None [Element t_tag [] None []]]]]"

definition deletion_root :: element where
  "deletion_root = marker del_tag ''Claude'' [run t_tag ''hello'']"

definition multiline_text :: string where
  "multiline_text = [CHR ''a'', CHR 0x0A, CHR ''b'', CHR '' '']"

definition small_store :: store where
  "small_store =
     [0 \<mapsto> \<lparr>ntag = document_tag, nattrib = [], ntext = None, kids = [1, 2]\<rparr>,
      1 \<mapsto> \<lparr>ntag = ins_tag, nattrib = [(author_attr, ''Claude'')], ntext = None, kids = []\<rparr>,
      2 \<mapsto> \<lparr>ntag = del_tag, nattrib = [(author_attr, ''Claude'')], ntext = None, kids = [3]\<rparr>,
      3 \<mapsto> \<lparr>ntag = deltext_tag, nattrib = [], ntext = Some ''x'', kids = []\<rparr>]"

definition small_tree :: ltree where
  "small_tree =
     LNode 0 document_tag [] None
       [LNode 1 ins_tag [(author_attr, ''Claude'')] None [],
        LNode 2 del_tag [(author_attr, ''Claude'')] None
          [LNode 3 deltext_tag [] (Some ''x'') []]]"

section \<open>Properties of the resolver and the projection\<close>

subsection \<open>Trees without tracked changes by Claude\<close>

lemma tags_distinct [simp]:
  "ins_tag \<noteq> del_tag" "del_tag \<noteq> ins_tag"
  "ins_tag \<noteq> deltext_tag" "deltext_tag \<noteq> ins_tag"
  "ins_tag \<noteq> t_tag" "t_tag \<noteq> ins_tag"
  "ins_tag \<noteq> p_tag" "p_tag \<noteq> ins_tag"
  "del_tag \<noteq> deltext_tag" "deltext_tag \<noteq> del_tag"
  "del_tag \<noteq> t_tag" "t_tag \<noteq> del_tag"
  "del_tag \<noteq> p_tag" "p_tag \<noteq> del_tag"
  "deltext_tag \<noteq> t_tag" "t_tag \<noteq> deltext_tag"
  "deltext_tag \<noteq> p_tag" "p_tag \<noteq> deltext_tag"
  "t_tag \<noteq> p_tag" "p_tag \<noteq> t_tag"
  by (simp_all add: ins_tag_def del_tag_def deltext_tag_def t_tag_def p_tag_def)

lemma child_in_descendants: "c \<in> set (children e) \<Longrightarrow> c \<in> set (descendants e)"
  by (cases e) auto

lemma descendants_trans:
  "c \<in> set (children e) \<Longrightarrow> x \<in> set (descendants c) \<Longrightarrow> x \<in> set (descendants e)"
  by (cases e) auto

lemma remove_ins_id: "\<forall>x\<in>set (descendants e). \<not> claude_ins x \<Longrightarrow> remove_ins e = e"
proof (induction e)
  case (Element tg at tx cs)
  have keep: "filter (\<lambda>c. \<not> claude_ins c) cs = cs"
    using Element.prems by (auto intro!: filter_True)
  have "map remove_ins cs = cs"
  proof (rule map_idI)
    fix c assume c: "c \<in> set cs"
    then have "\<forall>x\<in>set (descendants c). \<not> claude_ins x"
      using Element.prems by auto
    with c show "remove_ins c = c" by (rule Element.IH)
  qed
  with keep show ?case by simp
qed

lemma splice_id: "\<forall>c\<in>set cs. \<not> claude_del c \<Longrightarrow> splice cs = cs"
  by (induction cs) (auto simp: splice_def)

lemma unwrap_del_id: "\<forall>x\<in>set (descendants e). \<not> claude_del x \<Longrightarrow> unwrap_del e = e"
proof (induction e)
  case (Element tg at tx cs)
  have keep: "splice cs = cs"
    using Element.prems by (auto intro!: splice_id)
  have "map unwrap_del cs = cs"
  proof (rule map_idI)
    fix c assume c: "c \<in> set cs"
    then have "\<forall>x\<in>set (descendants c). \<not> claude_del x"
      using Element.prems by auto
    with c show "unwrap_del c = c" by (rule Element.IH)
  qed
  with keep show ?case by simp
qed

subsection \<open>The projection of a resolved tree\<close>

lemma text_parts_texts: "text_parts e = texts e"
proof (induction e)
  case (Element tg at tx cs)
  have step: "\<And>c. c \<in> set cs \<Longrightarrow>
      map (\<lambda>t. the (elem_text t)) (filter (\<lambda>t. truthy (elem_text t))
        (filter (\<lambda>x. tag x = t_tag) (c # descendants c))) = own_text c @ texts c"
    using Element.IH by (auto simp: text_parts_def findall_def own_text_def)
  have "text_parts (Element tg at tx cs) = concat (map (\<lambda>c.
      map (\<lambda>t. the (elem_text t)) (filter (\<lambda>t. truthy (elem_text t))
        (filter (\<lambda>x. tag x = t_tag) (c # descendants c)))) cs)"
    by (simp add: text_parts_def findall_def filter_concat map_concat comp_def del: filter.simps)
  also have "\<dots> = concat (map (\<lambda>c. own_text c @ texts c) cs)"
    by (rule arg_cong [where f = concat], rule map_cong [OF refl], rule step)
  finally show ?case by simp
qed

lemma paragraphs_paras: "paragraphs e = paras e"
proof (induction e)
  case (Element tg at tx cs)
  have step: "\<And>c. c \<in> set cs \<Longrightarrow>
      map (\<lambda>p. concat (text_parts p)) (filter (\<lambda>x. tag x = p_tag) (c # descendants c))
        = para_head c @ paras c"
    using Element.IH by (auto simp: paragraphs_def findall_def para_head_def text_parts_texts)
  have "paragraphs (Element tg at tx cs) = concat (map (\<lambda>c.
      map (\<lambda>p. concat (text_parts p)) (filter (\<lambda>x. tag x = p_tag) (c # descendants c))) cs)"
    by (simp add: paragraphs_def findall_def filter_concat map_concat comp_def del: filter.simps)
  also have "\<dots> = concat (map (\<lambda>c. para_head c @ paras c) cs)"
    by (rule arg_cong [where f = concat], rule map_cong [OF refl], rule step)
  finally show ?case by simp
qed

lemma tag_to_t_del [simp]: "tag (to_t e) = del_tag \<longleftrightarrow> tag e = del_tag"
  by (cases e) auto

lemma tag_to_t_ins [simp]: "tag (to_t e) = ins_tag \<longleftrightarrow> tag e = ins_tag"
  by (cases e) auto

lemma attrib_to_t [simp]: "attrib (to_t e) = attrib e"
  by (cases e) auto

lemma elem_text_to_t [simp]: "elem_text (to_t e) = elem_text e"
  by (cases e) auto

lemma children_to_t: "children (to_t e) = map to_t (children e)"
  by (cases e) auto

lemma claude_del_to_t [simp]: "claude_del (to_t e) = claude_del e"
  by (simp add: claude_del_def get_def)

lemma claude_ins_to_t [simp]: "claude_ins (to_t e) = claude_ins e"
  by (simp add: claude_ins_def get_def)

lemma to_t_idem [simp]: "to_t (to_t e) = to_t e"
  by (induction e) auto

lemma head_unwrap_del [simp]:
  "tag (unwrap_del e) = tag e" "attrib (unwrap_del e) = attrib e"
  "elem_text (unwrap_del e) = elem_text e"
  by (cases e; simp)+

lemma head_remove_ins [simp]:
  "tag (remove_ins e) = tag e" "attrib (remove_ins e) = attrib e"
  "elem_text (remove_ins e) = elem_text e"
  by (cases e; simp)+

lemma head_restore [simp]:
  "tag (restore e) = tag e" "attrib (restore e) = attrib e"
  "elem_text (restore e) = elem_text e"
  by (cases e; simp)+

lemma claude_unwrap_del [simp]:
  "claude_del (unwrap_del e) = claude_del e" "claude_ins (unwrap_del e) = claude_ins e"
  by (simp_all add: claude_del_def claude_ins_def get_def)

lemma claude_remove_ins [simp]:
  "claude_del (remove_ins e) = claude_del e" "claude_ins (remove_ins e) = claude_ins e"
  by (simp_all add: claude_del_def claude_ins_def get_def)

lemma own_text_heads [simp]:
  "own_text (unwrap_del e) = own_text e" "own_text (restore e) = own_text e"
  "own_text (remove_ins e) = own_text e"
  by (simp_all add: own_text_def)

lemma own_text_del [simp]: "claude_del e \<Longrightarrow> own_text e = []"
  by (simp add: own_text_def claude_del_def)

lemma para_head_del [simp]: "claude_del e \<Longrightarrow> para_head e = []"
  by (simp add: para_head_def claude_del_def)

lemma texts_children: "texts e = concat (map (\<lambda>c. own_text c @ texts c) (children e))"
  by (cases e) simp

lemma paras_children: "paras e = concat (map (\<lambda>c. para_head c @ paras c) (children e))"
  by (cases e) simp

lemma restore_fixed: "to_t e = e \<Longrightarrow> restore e = e"
proof (induction e)
  case (Element tg at tx cs)
  from Element.prems have fx: "\<And>c. c \<in> set cs \<Longrightarrow> to_t c = c"
    by (simp add: map_idI list_eq_iff_nth_eq) (metis in_set_conv_nth nth_map)
  have "map (\<lambda>c. if claude_del c then to_t c else restore c) cs = cs"
    by (rule map_idI) (use fx Element.IH in auto)
  then show ?case by simp
qed

lemma to_t_child_fixed: "k \<in> set (children (to_t c)) \<Longrightarrow> to_t k = k"
  by (auto simp: children_to_t)

lemma texts_del_children:
  "claude_del c \<Longrightarrow> concat (map (\<lambda>k. own_text k @ texts k) (children c)) = own_text c @ texts c"
  by (simp add: texts_children [symmetric])

lemma paras_del_children:
  "claude_del c \<Longrightarrow> concat (map (\<lambda>k. para_head k @ paras k) (children c)) = para_head c @ paras c"
  by (simp add: paras_children [symmetric])

lemma unwrap_del_restore:
  "texts (unwrap_del e) = texts (restore e) \<and> paras (unwrap_del e) = paras (restore e)"
proof (induction e rule: unwrap_del.induct)
  case (1 tg at tx cs)
  have ih: "\<And>k. k \<in> set (splice cs) \<Longrightarrow>
      texts (unwrap_del k) = texts (restore k) \<and> paras (unwrap_del k) = paras (restore k)"
    using "1" by simp
  have heads: "\<And>k. k \<in> set (splice cs) \<Longrightarrow> para_head (unwrap_del k) = para_head (restore k)"
    using ih by (simp add: para_head_def)
  have T: "concat (map (\<lambda>c. own_text c @ texts c) (map unwrap_del (splice cs)))
         = concat (map (\<lambda>c. own_text c @ texts c) (map restore (splice cs)))"
    using ih by (simp add: comp_def cong: map_cong)
  have P: "concat (map (\<lambda>c. para_head c @ paras c) (map unwrap_del (splice cs)))
         = concat (map (\<lambda>c. para_head c @ paras c) (map restore (splice cs)))"
    using ih heads by (simp add: comp_def cong: map_cong)
  have S: "map restore (splice cs)
      = concat (map (\<lambda>c. if claude_del c then children (to_t c) else [restore c]) cs)"
  proof -
    have "\<And>c. claude_del c \<Longrightarrow> map restore (children (to_t c)) = children (to_t c)"
      by (rule map_idI) (auto intro: restore_fixed to_t_child_fixed)
    then show ?thesis
      by (induction cs) (auto simp: splice_def)
  qed
  have T2: "concat (map (\<lambda>c. own_text c @ texts c)
        (concat (map (\<lambda>c. if claude_del c then children (to_t c) else [restore c]) cs)))
      = concat (map (\<lambda>c. own_text c @ texts c)
          (map (\<lambda>c. if claude_del c then to_t c else restore c) cs))"
    by (induction cs) (auto simp: texts_del_children)
  have P2: "concat (map (\<lambda>c. para_head c @ paras c)
        (concat (map (\<lambda>c. if claude_del c then children (to_t c) else [restore c]) cs)))
      = concat (map (\<lambda>c. para_head c @ paras c)
          (map (\<lambda>c. if claude_del c then to_t c else restore c) cs))"
    by (induction cs) (auto simp: paras_del_children)
  show ?case
    using T P T2 P2 by (simp add: S)
qed


subsection \<open>Resolving twice\<close>

lemma no_claude_ins_elements:
  "claude_ins_elements e = [] \<longleftrightarrow> (\<forall>x\<in>set (descendants e). \<not> claude_ins x)"
  by (auto simp: claude_ins_elements_def findall_def claude_ins_def filter_empty_conv)

lemma no_claude_del_elements:
  "claude_del_elements e = [] \<longleftrightarrow> (\<forall>x\<in>set (descendants e). \<not> claude_del x)"
  by (auto simp: claude_del_elements_def findall_def claude_del_def filter_empty_conv)

lemma resolve_unmarked:
  assumes "claude_del_elements e = []" and "claude_ins_elements e = []"
  shows "remove_claude_tracked_changes e = e"
  using assms
  by (simp add: remove_claude_tracked_changes_def no_claude_ins_elements no_claude_del_elements
      remove_ins_id unwrap_del_id)

lemma ins_free_descendants: "ins_free e \<longleftrightarrow> (\<forall>x\<in>set (descendants e). \<not> claude_ins x)"
  by (induction e) auto

lemma ins_free_remove_ins: "ins_free (remove_ins e)"
  by (induction e) auto

lemma ins_free_to_t: "ins_free e \<Longrightarrow> ins_free (to_t e)"
  by (induction e) auto

lemma ins_free_children: "ins_free e \<Longrightarrow> c \<in> set (children e) \<Longrightarrow> \<not> claude_ins c \<and> ins_free c"
  by (cases e) auto

lemma in_splice:
  "k \<in> set (splice cs) \<longleftrightarrow>
     (\<exists>c\<in>set cs. if claude_del c then k \<in> set (children (to_t c)) else k = c)"
  by (auto simp: splice_def split: if_splits)

lemma ins_free_unwrap_del: "ins_free e \<Longrightarrow> ins_free (unwrap_del e)"
proof (induction e rule: unwrap_del.induct)
  case (1 tg at tx cs)
  have "\<not> claude_ins k \<and> ins_free k" if "k \<in> set (splice cs)" for k
  proof -
    from that obtain c where c: "c \<in> set cs"
      and k: "if claude_del c then k \<in> set (children (to_t c)) else k = c"
      by (auto simp: in_splice)
    from c "1.prems" have "\<not> claude_ins c \<and> ins_free c" by simp
    then show ?thesis
      using k ins_free_children [of "to_t c" k] by (auto simp: ins_free_to_t split: if_splits)
  qed
  then show ?case using "1.IH" by simp
qed

lemma remove_ins_ins_free: "ins_free e \<Longrightarrow> remove_ins e = e"
  by (simp add: ins_free_descendants remove_ins_id)

lemma splice_to_t: "splice (map to_t cs) = map to_t (splice cs)"
  by (induction cs) (auto simp: splice_def children_to_t)

lemma to_t_unwrap_del: "to_t (unwrap_del e) = unwrap_del (to_t e)"
proof (induction e rule: unwrap_del.induct)
  case (1 tg at tx cs)
  have "map to_t (map unwrap_del (splice cs)) = map unwrap_del (map to_t (splice cs))"
    using "1.IH" by simp
  then show ?case by (simp add: splice_to_t)
qed

lemma restore_unwrap_del: "restore (unwrap_del e) = unwrap_del e"
proof (induction e rule: unwrap_del.induct)
  case (1 tg at tx cs)
  have "(if claude_del (unwrap_del k) then to_t (unwrap_del k) else restore (unwrap_del k))
      = unwrap_del k" if "k \<in> set (splice cs)" for k
  proof (cases "claude_del k")
    case True
    with that obtain c where "c \<in> set cs" "claude_del c" "k \<in> set (children (to_t c))"
      by (auto simp: in_splice split: if_splits)
    then have "to_t k = k" by (simp add: to_t_child_fixed)
    with True show ?thesis by (simp add: to_t_unwrap_del)
  next
    case False
    with that "1.IH" show ?thesis by simp
  qed
  then show ?case by (simp add: comp_def cong: map_cong)
qed

lemma paragraphs_unwrap_del: "paragraphs (unwrap_del e) = paragraphs (restore e)"
  by (simp add: paragraphs_paras unwrap_del_restore)

lemma paragraphs_resolve_twice:
  "paragraphs (remove_claude_tracked_changes (remove_claude_tracked_changes e))
     = paragraphs (remove_claude_tracked_changes e)"
proof -
  let ?u = "unwrap_del (remove_ins e)"
  have "remove_ins ?u = ?u"
    by (simp add: remove_ins_ins_free ins_free_unwrap_del ins_free_remove_ins)
  then have "paragraphs (remove_claude_tracked_changes ?u) = paragraphs (restore ?u)"
    by (simp add: remove_claude_tracked_changes_def paragraphs_unwrap_del)
  then show ?thesis
    by (simp add: remove_claude_tracked_changes_def restore_unwrap_del)
qed

text \<open>
  C6. Resolution is idempotent on the projection: a tree without any tracked change by
  Claude below its root is left as it is, so its projection is unchanged; and resolving
  a second time gives the projection of resolving once.
\<close>

theorem resolution_idempotent:
  "(claude_del_elements e = [] \<and> claude_ins_elements e = [] \<longrightarrow>
      paragraphs (remove_claude_tracked_changes e) = paragraphs e \<and>
      extract_text_content (remove_claude_tracked_changes e) = extract_text_content e) \<and>
   paragraphs (remove_claude_tracked_changes (remove_claude_tracked_changes e))
     = paragraphs (remove_claude_tracked_changes e) \<and>
   extract_text_content (remove_claude_tracked_changes (remove_claude_tracked_changes e))
     = extract_text_content (remove_claude_tracked_changes e)"
  by (simp add: resolve_unmarked paragraphs_resolve_twice extract_text_content_def)


theorem resolution_idempotent_witness:
  "claude_del_elements (document [para [marker ins_tag ''Bob'' [run t_tag ''Hello'']]]) = [] \<and>
   claude_ins_elements (document [para [marker ins_tag ''Bob'' [run t_tag ''Hello'']]]) = [] \<and>
   paragraphs (remove_claude_tracked_changes
      (document [para [marker ins_tag ''Bob'' [run t_tag ''Hello'']]])) = [''Hello'']"
proof -
  let ?d = "document [para [marker ins_tag ''Bob'' [run t_tag ''Hello'']]]"
  have h: "claude_del_elements ?d = [] \<and> claude_ins_elements ?d = []"
    by (simp add: claude_del_elements_def claude_ins_elements_def findall_def get_def
        example_defs)
  have p: "paragraphs ?d = [''Hello'']"
    by (simp add: paragraphs_def text_parts_def findall_def truthy_def example_defs)
  from resolution_idempotent [of ?d] h p show ?thesis by simp
qed

subsection \<open>Round trip\<close>

lemma claude_mark_deleted [simp]:
  "claude_ins (mark_deleted e) = claude_ins e" "claude_del (mark_deleted e) = claude_del e"
  by (cases e; simp add: claude_ins_def claude_del_def get_def)+



lemma to_t_mark_deleted [simp]: "to_t (mark_deleted e) = to_t e"
  by (induction e) auto















lemma claude_marker [simp]:
  "claude_ins (marker ins_tag ''Claude'' cs)" "claude_del (marker del_tag ''Claude'' cs)"
  by (simp_all add: marker_def claude_ins_def claude_del_def get_def)

lemma mark_deleted_run [simp]:
  "mark_deleted (run t_tag s) = run deltext_tag s"
  "mark_deleted (run deltext_tag s) = run deltext_tag s"
  by (simp_all add: run_def r_tag_def t_tag_def deltext_tag_def)











subsection \<open>Markers of other authors\<close>

lemma free_remove_ins:
  "x \<in> set (free_descendants e) \<Longrightarrow> remove_ins x \<in> set (free_descendants (remove_ins e))"
  by (induction e) (auto split: if_splits)

lemma free_unwrap_del:
  "x \<in> set (free_descendants e) \<Longrightarrow> unwrap_del x \<in> set (descendants (unwrap_del e))"
proof (induction e rule: unwrap_del.induct)
  case (1 tg at tx cs)
  from "1.prems" obtain c where c: "c \<in> set cs" "\<not> claude_ins c" "\<not> claude_del c"
    and x: "x = c \<or> x \<in> set (free_descendants c)"
    by (auto split: if_splits)
  from c have cs: "c \<in> set (splice cs)" by (auto simp: in_splice)
  from x show ?case
  proof
    assume "x = c"
    with cs show ?thesis by auto
  next
    assume "x \<in> set (free_descendants c)"
    with cs "1.IH" have "unwrap_del x \<in> set (descendants (unwrap_del c))" by simp
    with cs show ?thesis by auto
  qed
qed

lemma markers_of_simps [simp]:
  "markers_of [] = []"
  "markers_of (x # xs) = (if other_marker x then [shell x] else []) @ markers_of xs"
  "markers_of (xs @ ys) = markers_of xs @ markers_of ys"
  by (simp_all add: markers_of_def)

lemma markers_of_concat: "markers_of (concat xss) = concat (map markers_of xss)"
  by (induction xss) simp_all

lemma other_marker_heads [simp]:
  "other_marker (remove_ins x) = other_marker x"
  "other_marker (unwrap_del x) = other_marker x"
  "other_marker (to_t x) = other_marker x"
  by (cases x; simp add: other_marker_def get_def)+

lemma shell_heads [simp]:
  "shell (remove_ins x) = shell x" "shell (unwrap_del x) = shell x"
  by (simp_all add: shell_def)

lemma shell_to_t: "other_marker x \<Longrightarrow> shell (to_t x) = shell x"
  by (cases x) (auto simp: shell_def other_marker_def)

lemma other_marker_claude: "claude_del c \<Longrightarrow> \<not> other_marker c"
  by (simp add: other_marker_def claude_del_def)

lemma descendants_children:
  "descendants e = concat (map (\<lambda>c. c # descendants c) (children e))"
  by (cases e) simp

lemma descendants_to_t: "descendants (to_t e) = map to_t (descendants e)"
  by (induction e) (simp add: map_concat comp_def cong: map_cong)

lemma markers_of_to_t: "markers_of (map to_t xs) = markers_of xs"
  by (induction xs) (simp_all add: shell_to_t)

lemma descendants_remove_ins:
  "descendants (remove_ins e) = map remove_ins (outside_insertions e)"
proof (induction e)
  case (Element tg at tx cs)
  have "concat (map (\<lambda>c. c # descendants c) (map remove_ins (filter (\<lambda>c. \<not> claude_ins c) ks)))
      = map remove_ins (concat (map (\<lambda>c. if claude_ins c then [] else c # outside_insertions c) ks))"
    if "set ks \<subseteq> set cs" for ks
    using that by (induction ks) (simp_all add: Element.IH)
  then show ?case by simp
qed

lemma markers_of_remove_ins: "markers_of (map remove_ins xs) = markers_of xs"
  by (induction xs) simp_all

lemma markers_of_unwrap_del:
  "markers_of (descendants (unwrap_del e)) = markers_of (descendants e)"
proof (induction e rule: unwrap_del.induct)
  case (1 tg at tx cs)
  have step: "markers_of (unwrap_del k # descendants (unwrap_del k)) = markers_of (k # descendants k)"
    if "k \<in> set (splice cs)" for k
    using "1.IH" [OF that] by simp
  have "markers_of (descendants (unwrap_del (Element tg at tx cs)))
      = concat (map (\<lambda>k. markers_of (unwrap_del k # descendants (unwrap_del k))) (splice cs))"
    by (simp add: markers_of_concat comp_def del: markers_of_simps)
  also have "\<dots> = concat (map (\<lambda>k. markers_of (k # descendants k)) (splice cs))"
    by (rule arg_cong [where f = concat], rule map_cong [OF refl], rule step)
  also have "\<dots> = concat (map (\<lambda>c. markers_of (c # descendants c)) cs)"
  proof (induction cs)
    case Nil
    then show ?case by (simp add: splice_def)
  next
    case (Cons c cs)
    have "concat (map (\<lambda>k. markers_of (k # descendants k)) (children (to_t c)))
        = markers_of (c # descendants c)" if "claude_del c"
    proof -
      have "concat (map (\<lambda>k. markers_of (k # descendants k)) (children (to_t c)))
          = markers_of (descendants (to_t c))"
        by (simp add: descendants_children [of "to_t c"] markers_of_concat comp_def
            del: markers_of_simps)
      also have "\<dots> = markers_of (descendants c)"
        by (simp add: descendants_to_t markers_of_to_t)
      finally show ?thesis using that by (simp add: other_marker_claude)
    qed
    with Cons show ?case by (simp add: splice_def)
  qed
  also have "\<dots> = markers_of (descendants (Element tg at tx cs))"
    by (simp add: markers_of_concat comp_def del: markers_of_simps)
  finally show ?case .
qed

lemma markers_of_resolved:
  "markers_of (descendants (remove_claude_tracked_changes e)) = markers_of (outside_insertions e)"
  by (simp add: remove_claude_tracked_changes_def markers_of_unwrap_del descendants_remove_ins
      markers_of_remove_ins)

lemma inside_deletions_child:
  assumes "y \<in> set (inside_deletions b e)"
  shows "\<exists>c\<in>set (children e). \<not> claude_ins c \<and>
     (if claude_del c then y \<in> set (inside_deletions True c)
      else (b \<and> y = c) \<or> y \<in> set (inside_deletions b c))"
proof (cases e)
  case (Element tg at tx cs)
  with assms obtain c where c: "c \<in> set cs"
    and y: "y \<in> set (if claude_ins c then []
                      else if claude_del c then inside_deletions True c
                      else (if b then [c] else []) @ inside_deletions b c)"
    by auto
  from y have "\<not> claude_ins c" by (cases "claude_ins c") simp_all
  moreover from y this have "if claude_del c then y \<in> set (inside_deletions True c)
      else (b \<and> y = c) \<or> y \<in> set (inside_deletions b c)"
    by (cases "claude_del c"; cases b) simp_all
  ultimately show ?thesis using c Element by auto
qed

lemma inside_deletions_childI:
  assumes "c \<in> set (children e)" and "\<not> claude_ins c"
    and "if claude_del c then y \<in> set (inside_deletions True c)
      else (b \<and> y = c) \<or> y \<in> set (inside_deletions b c)"
  shows "y \<in> set (inside_deletions b e)"
proof (cases e)
  case (Element tg at tx cs)
  define F where "F = (\<lambda>c. if claude_ins c then []
                      else if claude_del c then inside_deletions True c
                      else (if b then [c] else []) @ inside_deletions b c)"
  from assms(2,3) have h: "y \<in> set (F c)"
    unfolding F_def by (cases "claude_del c"; cases b) auto
  from assms(1) Element have c: "c \<in> set cs" by simp
  have "inside_deletions b e = concat (map F cs)" by (simp add: Element F_def)
  moreover from c h have "y \<in> set (concat (map F cs))"
    unfolding set_concat set_map by blast
  ultimately show ?thesis by simp
qed

lemma inside_deletions_remove_ins:
  "y \<in> set (inside_deletions b e) \<Longrightarrow> remove_ins y \<in> set (inside_deletions b (remove_ins e))"
proof (induction e arbitrary: b y)
  case (Element tg at tx cs)
  let ?e = "Element tg at tx cs"
  from inside_deletions_child [OF Element.prems] obtain c where c: "c \<in> set cs"
    and nc: "\<not> claude_ins c"
    and yc: "if claude_del c then y \<in> set (inside_deletions True c)
      else (b \<and> y = c) \<or> y \<in> set (inside_deletions b c)"
    by auto
  from c nc have k: "remove_ins c \<in> set (children (remove_ins ?e))" by simp
  have n: "\<not> claude_ins (remove_ins c)" using nc by simp
  have "if claude_del (remove_ins c) then remove_ins y \<in> set (inside_deletions True (remove_ins c))
      else (b \<and> remove_ins y = remove_ins c) \<or> remove_ins y \<in> set (inside_deletions b (remove_ins c))"
  proof (cases "claude_del c")
    case True
    with yc have "y \<in> set (inside_deletions True c)" by simp
    from Element.IH [OF c this] True show ?thesis by simp
  next
    case False
    with yc have "(b \<and> y = c) \<or> y \<in> set (inside_deletions b c)" by simp
    then have "(b \<and> remove_ins y = remove_ins c) \<or> remove_ins y \<in> set (inside_deletions b (remove_ins c))"
      using Element.IH [OF c] by blast
    with False show ?thesis by simp
  qed
  with k n show ?case by (rule inside_deletions_childI)
qed

lemma inside_deletions_to_t: "inside_deletions b (to_t e) = map to_t (inside_deletions b e)"
proof (induction b e rule: inside_deletions.induct)
  case (1 inside tg at tx cs)
  have step: "(if claude_ins (to_t c) then []
       else if claude_del (to_t c) then inside_deletions True (to_t c)
       else (if inside then [to_t c] else []) @ inside_deletions inside (to_t c))
     = map to_t (if claude_ins c then []
       else if claude_del c then inside_deletions True c
       else (if inside then [c] else []) @ inside_deletions inside c)"
    if "c \<in> set cs" for c
    using "1.IH" that by simp
  have "inside_deletions inside (to_t (Element tg at tx cs))
      = concat (map (\<lambda>c. if claude_ins (to_t c) then []
          else if claude_del (to_t c) then inside_deletions True (to_t c)
          else (if inside then [to_t c] else []) @ inside_deletions inside (to_t c)) cs)"
    by (simp add: comp_def)
  also have "\<dots> = concat (map (\<lambda>c. map to_t (if claude_ins c then []
          else if claude_del c then inside_deletions True c
          else (if inside then [c] else []) @ inside_deletions inside c)) cs)"
    by (rule arg_cong [where f = concat], rule map_cong [OF refl], rule step)
  also have "\<dots> = map to_t (inside_deletions inside (Element tg at tx cs))"
    by (simp add: map_concat comp_def)
  finally show ?case .
qed


lemma fixed_child:
  assumes "to_t e = e" and "c \<in> set (children e)"
  shows "to_t c = c"
proof -
  from assms have "c \<in> set (children (to_t e))" by simp
  then show ?thesis by (rule to_t_child_fixed)
qed

lemma inside_deletions_unwrap_del:
  "y \<in> set (inside_deletions b e) \<Longrightarrow> (b \<longrightarrow> to_t e = e) \<Longrightarrow>
     to_t (unwrap_del y) \<in> set (descendants (unwrap_del e))"
proof (induction e arbitrary: b y rule: unwrap_del.induct)
  case (1 tg at tx cs)
  let ?e = "Element tg at tx cs"
  have kid: "unwrap_del k \<in> set (descendants (unwrap_del ?e))" if "k \<in> set (splice cs)" for k
  proof (rule child_in_descendants)
    from that show "unwrap_del k \<in> set (children (unwrap_del ?e))" by simp
  qed
  have below: "z \<in> set (descendants (unwrap_del ?e))"
    if "k \<in> set (splice cs)" "z \<in> set (descendants (unwrap_del k))" for k z
  proof (rule descendants_trans [of "unwrap_del k"])
    from that(1) show "unwrap_del k \<in> set (children (unwrap_del ?e))" by simp
    from that(2) show "z \<in> set (descendants (unwrap_del k))" .
  qed
  from inside_deletions_child [OF "1.prems"(1)] have
    "\<exists>c\<in>set cs. \<not> claude_ins c \<and>
       (if claude_del c then y \<in> set (inside_deletions True c)
        else (b \<and> y = c) \<or> y \<in> set (inside_deletions b c))"
    by simp
  then obtain c where c: "c \<in> set cs"
    and yc: "if claude_del c then y \<in> set (inside_deletions True c)
      else (b \<and> y = c) \<or> y \<in> set (inside_deletions b c)"
    by blast
  show ?case
  proof (cases "claude_del c")
    case False
    with c have cs: "c \<in> set (splice cs)"
      unfolding in_splice by (intro bexI [of _ c]) simp_all
    have fc: "b \<longrightarrow> to_t c = c"
    proof
      assume b
      with "1.prems"(2) have "to_t ?e = ?e" by simp
      then show "to_t c = c" by (rule fixed_child) (simp add: c)
    qed
    from yc False have "(b \<and> y = c) \<or> y \<in> set (inside_deletions b c)" by simp
    then show ?thesis
    proof
      assume h: "b \<and> y = c"
      with fc have "to_t (unwrap_del y) = unwrap_del c" by (simp add: to_t_unwrap_del)
      with kid [OF cs] show ?thesis by simp
    next
      assume "y \<in> set (inside_deletions b c)"
      then have "to_t (unwrap_del y) \<in> set (descendants (unwrap_del c))"
        using fc by (rule "1.IH" [OF cs])
      with cs show ?thesis by (rule below)
    qed
  next
    case True
    with yc have "y \<in> set (inside_deletions True c)" by simp
    then have "to_t y \<in> set (inside_deletions True (to_t c))"
      by (simp add: inside_deletions_to_t)
    from inside_deletions_child [OF this] obtain k where k: "k \<in> set (children (to_t c))"
      and yk: "if claude_del k then to_t y \<in> set (inside_deletions True k)
        else (True \<and> to_t y = k) \<or> to_t y \<in> set (inside_deletions True k)"
      by blast
    from k c True have ks: "k \<in> set (splice cs)"
      unfolding in_splice by (intro bexI [of _ c]) simp_all
    from k have fk: "True \<longrightarrow> to_t k = k" by (simp add: to_t_child_fixed)
    have ty: "to_t (unwrap_del (to_t y)) = to_t (unwrap_del y)"
      by (simp add: to_t_unwrap_del)
    from yk have "to_t y = k \<or> to_t y \<in> set (inside_deletions True k)"
      by (cases "claude_del k") simp_all
    then show ?thesis
    proof
      assume "to_t y = k"
      then have "to_t (unwrap_del y) = unwrap_del k" by (simp add: to_t_unwrap_del)
      with kid [OF ks] show ?thesis by simp
    next
      assume "to_t y \<in> set (inside_deletions True k)"
      then have "to_t (unwrap_del (to_t y)) \<in> set (descendants (unwrap_del k))"
        using fk by (rule "1.IH" [OF ks])
      with ty have "to_t (unwrap_del y) \<in> set (descendants (unwrap_del k))" by simp
      with ks show ?thesis by (rule below)
    qed
  qed
qed

lemma deleted_resolved:
  assumes "y \<in> set (deleted_descendants e)"
  shows "to_t (remove_claude_tracked_changes y) \<in> set (descendants (remove_claude_tracked_changes e))"
proof -
  from assms have "remove_ins y \<in> set (inside_deletions False (remove_ins e))"
    by (simp add: deleted_descendants_def inside_deletions_remove_ins)
  then have "to_t (unwrap_del (remove_ins y)) \<in> set (descendants (unwrap_del (remove_ins e)))"
    by (rule inside_deletions_unwrap_del) simp
  then show ?thesis by (simp add: remove_claude_tracked_changes_def)
qed

lemma outside_insertions_child:
  assumes "x \<in> set (outside_insertions e)"
  shows "\<exists>c\<in>set (children e). \<not> claude_ins c \<and> (x = c \<or> x \<in> set (outside_insertions c))"
proof (cases e)
  case (Element tg at tx cs)
  with assms obtain c where c: "c \<in> set cs"
    and x: "x \<in> set (if claude_ins c then [] else c # outside_insertions c)"
    by auto
  from x have "\<not> claude_ins c" by (cases "claude_ins c") simp_all
  moreover from x this have "x = c \<or> x \<in> set (outside_insertions c)" by simp
  ultimately show ?thesis using c Element by auto
qed

lemma free_descendants_childI:
  assumes "c \<in> set (children e)" and "\<not> claude_ins c" and "\<not> claude_del c"
    and "x = c \<or> x \<in> set (free_descendants c)"
  shows "x \<in> set (free_descendants e)"
proof (cases e)
  case (Element tg at tx cs)
  define F where "F = (\<lambda>c. if claude_ins c \<or> claude_del c then [] else c # free_descendants c)"
  from assms(2-4) have h: "x \<in> set (F c)" unfolding F_def by auto
  from assms(1) Element have c: "c \<in> set cs" by simp
  have "free_descendants e = concat (map F cs)" by (simp add: Element F_def)
  moreover from c h have "x \<in> set (concat (map F cs))"
    unfolding set_concat set_map by blast
  ultimately show ?thesis by simp
qed

lemma outside_inside_deletion:
  "x \<in> set (outside_insertions e) \<Longrightarrow> \<not> claude_del x \<Longrightarrow> x \<in> set (inside_deletions True e)"
proof (induction e)
  case (Element tg at tx cs)
  let ?e = "Element tg at tx cs"
  from outside_insertions_child [OF Element.prems(1)] obtain c where c: "c \<in> set cs"
    and nc: "\<not> claude_ins c" and xc: "x = c \<or> x \<in> set (outside_insertions c)"
    by auto
  from c have k: "c \<in> set (children ?e)" by simp
  have "if claude_del c then x \<in> set (inside_deletions True c)
      else (True \<and> x = c) \<or> x \<in> set (inside_deletions True c)"
  proof (cases "x = c")
    case True
    with Element.prems(2) show ?thesis by simp
  next
    case False
    with xc have "x \<in> set (outside_insertions c)" by simp
    then have "x \<in> set (inside_deletions True c)"
      using Element.prems(2) by (rule Element.IH [OF c])
    then show ?thesis by simp
  qed
  with k nc show ?case by (rule inside_deletions_childI)
qed

lemma outside_free_or_deleted:
  "x \<in> set (outside_insertions e) \<Longrightarrow> \<not> claude_del x \<Longrightarrow>
     x \<in> set (free_descendants e) \<or> x \<in> set (deleted_descendants e)"
proof (induction e)
  case (Element tg at tx cs)
  let ?e = "Element tg at tx cs"
  from outside_insertions_child [OF Element.prems(1)] obtain c where c: "c \<in> set cs"
    and nc: "\<not> claude_ins c" and xc: "x = c \<or> x \<in> set (outside_insertions c)"
    by auto
  from c have k: "c \<in> set (children ?e)" by simp
  show ?case
  proof (cases "claude_del c")
    case True
    with xc Element.prems(2) have "x \<in> set (outside_insertions c)" by auto
    then have "x \<in> set (inside_deletions True c)"
      using Element.prems(2) by (rule outside_inside_deletion)
    with True have "if claude_del c then x \<in> set (inside_deletions True c)
      else (False \<and> x = c) \<or> x \<in> set (inside_deletions False c)" by simp
    with k nc have "x \<in> set (inside_deletions False ?e)" by (rule inside_deletions_childI)
    then show ?thesis unfolding deleted_descendants_def by (rule disjI2)
  next
    case False
    from xc show ?thesis
    proof
      assume "x = c"
      then have "x = c \<or> x \<in> set (free_descendants c)" by simp
      with k nc False have "x \<in> set (free_descendants ?e)" by (rule free_descendants_childI)
      then show ?thesis by simp
    next
      assume "x \<in> set (outside_insertions c)"
      then have "x \<in> set (free_descendants c) \<or> x \<in> set (deleted_descendants c)"
        using Element.prems(2) by (rule Element.IH [OF c])
      then show ?thesis
      proof
        assume "x \<in> set (free_descendants c)"
        then have "x = c \<or> x \<in> set (free_descendants c)" by simp
        with k nc False have "x \<in> set (free_descendants ?e)" by (rule free_descendants_childI)
        then show ?thesis by simp
      next
        assume "x \<in> set (deleted_descendants c)"
        with False have "if claude_del c then x \<in> set (inside_deletions True c)
          else (False \<and> x = c) \<or> x \<in> set (inside_deletions False c)"
          by (simp add: deleted_descendants_def)
        with k nc have "x \<in> set (inside_deletions False ?e)" by (rule inside_deletions_childI)
        then show ?thesis unfolding deleted_descendants_def by (rule disjI2)
      qed
    qed
  qed
qed

lemma free_resolved:
  assumes "x \<in> set (free_descendants e)"
  shows "remove_claude_tracked_changes x \<in> set (descendants (remove_claude_tracked_changes e))"
  using assms by (simp add: remove_claude_tracked_changes_def free_remove_ins free_unwrap_del)

lemma head_to_t:
  "tag (to_t e) = (if tag e = deltext_tag then t_tag else tag e)" "attrib (to_t e) = attrib e"
  by (cases e; simp)+

text \<open>
  C3 (as amended). The marker nodes of other authors in the resolved tree are, in
  document order and with tag, attributes and text unchanged, exactly those of the input
  that lie outside every insertion by Claude: none is dropped, none is added, and those
  inside an insertion by Claude are removed with it. Every element outside the insertions
  by Claude that is not itself a deletion by Claude lies either in no tracked change by
  Claude or inside a deletion by Claude. In the first case it is found in the resolved
  tree with its tag, attributes and text, its content is what resolving it alone gives
  (for an insertion by another author that holds a deletion by Claude, the deleted
  fragment as ordinary text inside the marker), and it is found unchanged when it holds
  no tracked change by Claude. In the second case it is found in the resolved tree with
  its attributes and text, its content resolved and every deleted-text element of it
  rewritten to ordinary text, also inside markers of other authors.
\<close>

theorem other_markers_resolved:
  "markers_of (descendants (remove_claude_tracked_changes e)) = markers_of (outside_insertions e) \<and>
   (\<forall>x\<in>set (outside_insertions e). \<not> claude_del x \<longrightarrow>
      x \<in> set (free_descendants e) \<or> x \<in> set (deleted_descendants e)) \<and>
   (\<forall>x\<in>set (free_descendants e).
      remove_claude_tracked_changes x \<in> set (descendants (remove_claude_tracked_changes e)) \<and>
      tag (remove_claude_tracked_changes x) = tag x \<and>
      attrib (remove_claude_tracked_changes x) = attrib x \<and>
      elem_text (remove_claude_tracked_changes x) = elem_text x \<and>
      (claude_del_elements x = [] \<and> claude_ins_elements x = [] \<longrightarrow>
         x \<in> set (descendants (remove_claude_tracked_changes e)))) \<and>
   (\<forall>y\<in>set (deleted_descendants e).
      to_t (remove_claude_tracked_changes y) \<in> set (descendants (remove_claude_tracked_changes e)) \<and>
      tag (to_t (remove_claude_tracked_changes y)) = (if tag y = deltext_tag then t_tag else tag y) \<and>
      attrib (to_t (remove_claude_tracked_changes y)) = attrib y \<and>
      elem_text (to_t (remove_claude_tracked_changes y)) = elem_text y)"
proof (intro conjI ballI impI)
  show "markers_of (descendants (remove_claude_tracked_changes e)) = markers_of (outside_insertions e)"
    by (rule markers_of_resolved)
next
  fix x assume "x \<in> set (outside_insertions e)" "\<not> claude_del x"
  then show "x \<in> set (free_descendants e) \<or> x \<in> set (deleted_descendants e)"
    by (rule outside_free_or_deleted)
next
  fix x assume "x \<in> set (free_descendants e)"
  then show "remove_claude_tracked_changes x \<in> set (descendants (remove_claude_tracked_changes e))"
    by (rule free_resolved)
next
  fix x
  show "tag (remove_claude_tracked_changes x) = tag x"
    by (simp add: remove_claude_tracked_changes_def)
  show "attrib (remove_claude_tracked_changes x) = attrib x"
    by (simp add: remove_claude_tracked_changes_def)
  show "elem_text (remove_claude_tracked_changes x) = elem_text x"
    by (simp add: remove_claude_tracked_changes_def)
next
  fix x assume x: "x \<in> set (free_descendants e)"
    and "claude_del_elements x = [] \<and> claude_ins_elements x = []"
  then have "remove_claude_tracked_changes x = x" by (simp add: resolve_unmarked)
  with free_resolved [OF x] show "x \<in> set (descendants (remove_claude_tracked_changes e))"
    by simp
next
  fix y assume "y \<in> set (deleted_descendants e)"
  then show "to_t (remove_claude_tracked_changes y) \<in> set (descendants (remove_claude_tracked_changes e))"
    by (rule deleted_resolved)
next
  fix y
  show "tag (to_t (remove_claude_tracked_changes y)) = (if tag y = deltext_tag then t_tag else tag y)"
    by (simp add: remove_claude_tracked_changes_def head_to_t)
  show "attrib (to_t (remove_claude_tracked_changes y)) = attrib y"
    by (simp add: remove_claude_tracked_changes_def head_to_t)
  show "elem_text (to_t (remove_claude_tracked_changes y)) = elem_text y"
    by (simp add: remove_claude_tracked_changes_def)
qed

theorem other_markers_resolved_witness:
  "marker ins_tag ''Bob'' [marker del_tag ''Claude'' [marker del_tag ''Bob'' [run deltext_tag ''x'']]]
      \<in> set (free_descendants cross_author) \<and>
   marker del_tag ''Bob'' [run deltext_tag ''x''] \<in> set (deleted_descendants cross_author) \<and>
   marker del_tag ''Bob'' [run deltext_tag ''x''] \<in> set (outside_insertions cross_author) \<and>
   \<not> claude_del (marker del_tag ''Bob'' [run deltext_tag ''x'']) \<and>
   run t_tag ''y'' \<in> set (free_descendants (marker ins_tag ''Bob'' [run t_tag ''y''])) \<and>
   claude_del_elements (run t_tag ''y'') = [] \<and> claude_ins_elements (run t_tag ''y'') = [] \<and>
   marker ins_tag ''Bob'' [marker del_tag ''Bob'' [run t_tag ''x'']]
      \<in> set (descendants (remove_claude_tracked_changes cross_author)) \<and>
   marker del_tag ''Bob'' [run t_tag ''x'']
      \<in> set (descendants (remove_claude_tracked_changes cross_author)) \<and>
   run t_tag ''y''
      \<in> set (descendants (remove_claude_tracked_changes (marker ins_tag ''Bob'' [run t_tag ''y'']))) \<and>
   markers_of (descendants (remove_claude_tracked_changes cross_author))
      = [(ins_tag, [(author_attr, ''Bob'')], None), (del_tag, [(author_attr, ''Bob'')], None)]"
proof -
  let ?b = "marker ins_tag ''Bob'' [marker del_tag ''Claude'' [marker del_tag ''Bob'' [run deltext_tag ''x'']]]"
  let ?d = "marker del_tag ''Bob'' [run deltext_tag ''x'']"
  let ?i = "marker ins_tag ''Bob'' [run t_tag ''y'']"
  note eval = cross_author_def deleted_descendants_def markers_of_def shell_def other_marker_def
    eval_defs example_defs
  have f: "?b \<in> set (free_descendants cross_author)" by (simp add: eval)
  have d: "?d \<in> set (deleted_descendants cross_author)" by (simp add: eval)
  have o: "?d \<in> set (outside_insertions cross_author)" "\<not> claude_del ?d" by (simp_all add: eval)
  have y: "run t_tag ''y'' \<in> set (free_descendants ?i)" by (simp add: eval)
  have u: "claude_del_elements (run t_tag ''y'') = [] \<and> claude_ins_elements (run t_tag ''y'') = []"
    by (simp add: eval)
  have rb: "remove_claude_tracked_changes ?b
      = marker ins_tag ''Bob'' [marker del_tag ''Bob'' [run t_tag ''x'']]"
    by (simp add: eval)
  have rd: "to_t (remove_claude_tracked_changes ?d) = marker del_tag ''Bob'' [run t_tag ''x'']"
    by (simp add: eval)
  have m: "markers_of (outside_insertions cross_author)
      = [(ins_tag, [(author_attr, ''Bob'')], None), (del_tag, [(author_attr, ''Bob'')], None)]"
    by (simp add: eval)
  note t = other_markers_resolved [of cross_author]
  note s = other_markers_resolved [of ?i]
  from t have 1: "markers_of (descendants (remove_claude_tracked_changes cross_author))
      = markers_of (outside_insertions cross_author)" by (rule conjunct1)
  from t [THEN conjunct2, THEN conjunct2, THEN conjunct1, THEN bspec, OF f]
  have 2: "remove_claude_tracked_changes ?b
      \<in> set (descendants (remove_claude_tracked_changes cross_author))" by (rule conjunct1)
  from t [THEN conjunct2, THEN conjunct2, THEN conjunct2, THEN bspec, OF d]
  have 3: "to_t (remove_claude_tracked_changes ?d)
      \<in> set (descendants (remove_claude_tracked_changes cross_author))" by (rule conjunct1)
  from s [THEN conjunct2, THEN conjunct2, THEN conjunct1, THEN bspec, OF y]
  have 4: "run t_tag ''y'' \<in> set (descendants (remove_claude_tracked_changes ?i))"
    using u by simp
  from 1 2 3 4 f d o y u show ?thesis by (simp only: rb rd m simp_thms)
qed

text \<open>
  Inside a tracked change by Claude another author's marker is not kept: it is removed
  with an insertion by Claude, and its deleted text is rewritten to ordinary text with a
  deletion by Claude.
\<close>

theorem other_markers_counterexample:
  "marker ins_tag ''Bob'' [run t_tag ''x''] \<in> set (descendants other_in_insertion) \<and>
   remove_claude_tracked_changes other_in_insertion = document [para []] \<and>
   marker del_tag ''Bob'' [run deltext_tag ''x''] \<in> set (descendants other_in_deletion) \<and>
   remove_claude_tracked_changes other_in_deletion
     = document [para [marker del_tag ''Bob'' [run t_tag ''x'']]]"
  by (simp add: other_in_insertion_def other_in_deletion_def eval_defs example_defs)

subsection \<open>Markers that remain\<close>

text \<open>
  C4. A deletion by Claude that is the direct child of a deletion by Claude is spliced
  into the parent after the parent's children were examined, and is never unwrapped:
  the marker is still in the resolved tree.
\<close>

theorem deletion_marker_remains:
  "remove_claude_tracked_changes nested_same_author
     = document [para [marker del_tag ''Claude'' [run t_tag ''x'']]] \<and>
   claude_del_elements (remove_claude_tracked_changes nested_same_author)
     = [marker del_tag ''Claude'' [run t_tag ''x'']]"
  by (simp add: nested_same_author_def eval_defs example_defs)

text \<open>No insertion by Claude is left below the root.\<close>

lemma no_insertion_remains: "claude_ins_elements (remove_claude_tracked_changes e) = []"
  by (simp add: no_claude_ins_elements remove_claude_tracked_changes_def
      ins_free_descendants [symmetric] ins_free_unwrap_del ins_free_remove_ins)

text \<open>
  Nor is a deletion by Claude left, when none is the direct child of another once the
  insertions are removed.
\<close>

lemma flat_dels_to_t: "flat_dels e \<Longrightarrow> flat_dels (to_t e)"
  by (induction e) (auto simp: children_to_t)

lemma flat_dels_children:
  "flat_dels e \<Longrightarrow> c \<in> set (children e) \<Longrightarrow>
     (claude_del c \<longrightarrow> (\<forall>k\<in>set (children c). \<not> claude_del k)) \<and> flat_dels c"
  by (cases e) auto

lemma in_descendants:
  "x \<in> set (descendants e) \<longleftrightarrow> (\<exists>c\<in>set (children e). x = c \<or> x \<in> set (descendants c))"
  by (cases e) auto

lemma flat_dels_splice:
  assumes "flat_dels (Element tg at tx cs)" and "k \<in> set (splice cs)"
  shows "\<not> claude_del k \<and> flat_dels k"
proof -
  from assms(2) obtain c where c: "c \<in> set cs"
    and kc: "if claude_del c then k \<in> set (children (to_t c)) else k = c"
    unfolding in_splice by blast
  from c assms(1) have fc: "claude_del c \<longrightarrow> (\<forall>k\<in>set (children c). \<not> claude_del k)"
    and fl: "flat_dels c" by simp_all
  show ?thesis
  proof (cases "claude_del c")
    case True
    with kc have "k \<in> set (map to_t (children c))" by (simp add: children_to_t)
    then obtain k0 where k0: "k0 \<in> set (children c)" and k: "k = to_t k0" by auto
    from True fc k0 have "\<not> claude_del k0" by simp
    moreover from fl k0 have "flat_dels k0" by (simp add: flat_dels_children)
    ultimately show ?thesis by (simp add: k flat_dels_to_t)
  next
    case False
    with kc fl show ?thesis by simp
  qed
qed

lemma flat_dels_unwrap_del:
  "flat_dels e \<Longrightarrow> x \<in> set (descendants (unwrap_del e)) \<Longrightarrow> \<not> claude_del x"
proof (induction e arbitrary: x rule: unwrap_del.induct)
  case (1 tg at tx cs)
  from "1.prems"(2) have "\<exists>c'\<in>set (children (unwrap_del (Element tg at tx cs))).
      x = c' \<or> x \<in> set (descendants c')"
    by (rule in_descendants [THEN iffD1])
  then obtain c' where c': "c' \<in> set (children (unwrap_del (Element tg at tx cs)))"
    and x: "x = c' \<or> x \<in> set (descendants c')"
    by blast
  from c' obtain k where ks: "k \<in> set (splice cs)" and ck: "c' = unwrap_del k" by auto
  from flat_dels_splice [OF "1.prems"(1) ks] have nk: "\<not> claude_del k" and fk: "flat_dels k"
    by simp_all
  from x show ?case
  proof
    assume "x = c'"
    with ck nk show ?thesis by simp
  next
    assume "x \<in> set (descendants c')"
    then have "x \<in> set (descendants (unwrap_del k))" by (simp add: ck)
    with ks fk show ?thesis by (rule "1.IH")
  qed
qed

lemma no_marker_remains_unless_nested:
  assumes "flat_dels (remove_ins e)"
  shows "claude_ins_elements (remove_claude_tracked_changes e) = [] \<and>
         claude_del_elements (remove_claude_tracked_changes e) = []"
proof -
  from assms have "\<forall>x\<in>set (descendants (unwrap_del (remove_ins e))). \<not> claude_del x"
    using flat_dels_unwrap_del by blast
  then have "claude_del_elements (remove_claude_tracked_changes e) = []"
    by (simp only: no_claude_del_elements remove_claude_tracked_changes_def)
  with no_insertion_remains [of e] show ?thesis by simp
qed

section \<open>Properties of the redlining validator\<close>

lemma no_claude_changes_resolve:
  "no_claude_changes (Parsed edited) \<Longrightarrow> remove_claude_tracked_changes edited = edited"
  by (simp add: no_claude_changes_def resolve_unmarked)

text \<open>
  C1 (as amended). An edited document that parses and holds no tracked change by Claude
  passes at once, whatever the original is: resolving changes nothing, and no text is
  compared. When it holds a tracked change by Claude and the texts differ after
  resolving both documents, the validator fails with the diff of the two texts.
\<close>

theorem untracked_edit_gate:
  "(no_claude_changes (Parsed edited) \<longrightarrow>
      remove_claude_tracked_changes edited = edited \<and>
      redlining_validate unified_diff
        \<lparr>modified_file = Parsed edited, original_docx = package, verbose = vb\<rparr>
        = (True, if vb then [PassedNoTrackedChanges] else [])) \<and>
   (\<not> no_claude_changes (Parsed edited) \<and>
    extract_text_content (remove_claude_tracked_changes edited)
      \<noteq> extract_text_content (remove_claude_tracked_changes original) \<longrightarrow>
      redlining_validate unified_diff
        \<lparr>modified_file = Parsed edited, original_docx = Unpacked (Parsed original),
         verbose = vb\<rparr>
        = (False, [TextMismatch (unified_diff
             (extract_text_content (remove_claude_tracked_changes original))
             (extract_text_content (remove_claude_tracked_changes edited)))]))"
  by (auto simp: redlining_validate_def compare_texts_def no_claude_changes_resolve)

lemma untracked_no_changes: "no_claude_changes (Parsed hello_untracked)"
  by (simp add: no_claude_changes_def hello_untracked_def eval_defs example_defs)

lemma half_tracked_changes: "\<not> no_claude_changes (Parsed hello_half_tracked)"
  by (simp add: no_claude_changes_def hello_half_tracked_def eval_defs example_defs)

lemma half_tracked_text:
  "extract_text_content (remove_claude_tracked_changes hello_half_tracked) = ''Hello there.''"
  by (simp add: hello_half_tracked_def eval_defs example_defs)

lemma hello_world_text:
  "extract_text_content (remove_claude_tracked_changes hello_world) = ''Hello world.''"
  by (simp add: hello_world_def eval_defs example_defs)

theorem untracked_edit_gate_witness:
  "no_claude_changes (Parsed hello_untracked) \<and>
   redlining_validate (@)
     \<lparr>modified_file = Parsed hello_untracked, original_docx = Unpacked (Parsed hello_world),
      verbose = True\<rparr> = (True, [PassedNoTrackedChanges]) \<and>
   \<not> no_claude_changes (Parsed hello_half_tracked) \<and>
   redlining_validate (@)
     \<lparr>modified_file = Parsed hello_half_tracked, original_docx = Unpacked (Parsed hello_world),
      verbose = True\<rparr> = (False, [TextMismatch ''Hello world.Hello there.''])"
proof -
  have a: "redlining_validate (@)
     \<lparr>modified_file = Parsed hello_untracked, original_docx = Unpacked (Parsed hello_world),
      verbose = True\<rparr> = (True, [PassedNoTrackedChanges])"
    using untracked_edit_gate [of hello_untracked "(@)" "Unpacked (Parsed hello_world)" True]
      untracked_no_changes by simp
  have b: "redlining_validate (@)
     \<lparr>modified_file = Parsed hello_half_tracked, original_docx = Unpacked (Parsed hello_world),
      verbose = True\<rparr> = (False, [TextMismatch ''Hello world.Hello there.''])"
    using untracked_edit_gate [of hello_half_tracked "(@)" _ True hello_world]
      half_tracked_changes half_tracked_text hello_world_text by simp
  from a b untracked_no_changes half_tracked_changes show ?thesis by simp
qed

text \<open>
  The edit of the text without any marker: the projections differ, and the validator
  passes.
\<close>

theorem untracked_edit_counterexample:
  "claude_del_elements hello_untracked = [] \<and> claude_ins_elements hello_untracked = [] \<and>
   findall ins_tag hello_untracked = [] \<and> findall del_tag hello_untracked = [] \<and>
   paragraphs (remove_claude_tracked_changes hello_untracked) = [''Hello there.''] \<and>
   paragraphs (remove_claude_tracked_changes hello_world) = [''Hello world.''] \<and>
   redlining_validate (@)
     \<lparr>modified_file = Parsed hello_untracked, original_docx = Unpacked (Parsed hello_world),
      verbose = False\<rparr> = (True, [])"
  by (simp add: redlining_validate_def no_claude_changes_def hello_untracked_def hello_world_def
      eval_defs example_defs)

section \<open>Properties of the DOCX schema validator\<close>

subsection \<open>The orchestrator\<close>

lemma docx_validate_result:
  "fst (docx_validate repr v) \<longleftrightarrow>
     validate_xml v \<and> validate_unique_ids v \<and> validate_file_references v \<and>
     validate_content_types v \<and> validate_against_xsd v \<and>
     fst (validate_whitespace_preservation repr v) \<and> fst (validate_deletions repr v) \<and>
     validate_all_relationship_ids v"
  by (simp add: docx_validate_def Let_def)

lemma scan_files_error:
  "(''document.xml'', Malformed) \<in> set files \<Longrightarrow> FileError ''document.xml'' \<in> set (scan_files scan files)"
  by (force simp: scan_files_def)

text \<open>
  C7 (as amended). The aggregate result is the conjunction of the eight checks' outcomes.
  When the XML well-formedness check passes, every one of the eight checks runs and its
  outcome is in the report, whatever the earlier ones returned; when it fails, the
  orchestrator returns at once and the report holds that failure alone. A
  \<^verbatim>\<open>document.xml\<close> that does not parse fails the scan that met it, with one error for
  the file, and does not stop the scans.
\<close>

theorem orchestrator_aggregate:
  "(fst (docx_validate repr v) \<longleftrightarrow>
     validate_xml v \<and> validate_unique_ids v \<and> validate_file_references v \<and>
     validate_content_types v \<and> validate_against_xsd v \<and>
     fst (validate_whitespace_preservation repr v) \<and> fst (validate_deletions repr v) \<and>
     validate_all_relationship_ids v) \<and>
   (validate_xml v \<longrightarrow>
     snd (docx_validate repr v) =
       [Inherited XmlWellFormed True,
        Inherited UniqueIds (validate_unique_ids v),
        Inherited FileReferences (validate_file_references v),
        Inherited ContentTypes (validate_content_types v),
        Inherited XsdSchema (validate_against_xsd v),
        Scanned WhitespacePreservation (fst (validate_whitespace_preservation repr v))
          (snd (validate_whitespace_preservation repr v)),
        Scanned Deletions (fst (validate_deletions repr v)) (snd (validate_deletions repr v)),
        Inherited RelationshipIds (validate_all_relationship_ids v),
        compare_paragraph_counts v] \<and>
     checks_run (snd (docx_validate repr v)) =
       [XmlWellFormed, UniqueIds, FileReferences, ContentTypes, XsdSchema,
        WhitespacePreservation, Deletions, RelationshipIds]) \<and>
   (\<not> validate_xml v \<longrightarrow> snd (docx_validate repr v) = [Inherited XmlWellFormed False]) \<and>
   ((''document.xml'', Malformed) \<in> set (xml_files v) \<longrightarrow>
     \<not> fst (validate_whitespace_preservation repr v) \<and>
     FileError ''document.xml'' \<in> set (snd (validate_whitespace_preservation repr v)) \<and>
     \<not> fst (validate_deletions repr v) \<and>
     FileError ''document.xml'' \<in> set (snd (validate_deletions repr v)))"
proof -
  have a: "validate_xml v \<Longrightarrow> snd (docx_validate repr v) =
       [Inherited XmlWellFormed True,
        Inherited UniqueIds (validate_unique_ids v),
        Inherited FileReferences (validate_file_references v),
        Inherited ContentTypes (validate_content_types v),
        Inherited XsdSchema (validate_against_xsd v),
        Scanned WhitespacePreservation (fst (validate_whitespace_preservation repr v))
          (snd (validate_whitespace_preservation repr v)),
        Scanned Deletions (fst (validate_deletions repr v)) (snd (validate_deletions repr v)),
        Inherited RelationshipIds (validate_all_relationship_ids v),
        compare_paragraph_counts v]"
    by (simp add: docx_validate_def Let_def)
  have b: "validate_xml v \<Longrightarrow> checks_run (snd (docx_validate repr v)) =
       [XmlWellFormed, UniqueIds, FileReferences, ContentTypes, XsdSchema,
        WhitespacePreservation, Deletions, RelationshipIds]"
    by (simp add: a checks_run_def List.map_filter_simps compare_paragraph_counts_def Let_def)
  have c: "\<not> validate_xml v \<Longrightarrow> snd (docx_validate repr v) = [Inherited XmlWellFormed False]"
    by (simp add: docx_validate_def)
  have d: "(''document.xml'', Malformed) \<in> set (xml_files v) \<Longrightarrow>
     \<not> fst (validate_whitespace_preservation repr v) \<and>
     FileError ''document.xml'' \<in> set (snd (validate_whitespace_preservation repr v)) \<and>
     \<not> fst (validate_deletions repr v) \<and>
     FileError ''document.xml'' \<in> set (snd (validate_deletions repr v))"
    using scan_files_error [of "xml_files v" "whitespace_errors repr v"]
      scan_files_error [of "xml_files v" "deletion_errors repr"]
    by (auto simp: validate_whitespace_preservation_def validate_deletions_def Let_def)
  show ?thesis
    using a b c d docx_validate_result [of repr v] by blast
qed

theorem orchestrator_aggregate_witness:
  "docx_validate id (example_validator True False [(''document.xml'', Malformed)] BadZip)
     = (False,
        [Inherited XmlWellFormed True, Inherited UniqueIds False,
         Inherited FileReferences False, Inherited ContentTypes False,
         Inherited XsdSchema False,
         Scanned WhitespacePreservation False [FileError ''document.xml''],
         Scanned Deletions False [FileError ''document.xml''],
         Inherited RelationshipIds False, Paragraphs 0 0 0]) \<and>
   docx_validate id (example_validator False True [] BadZip)
     = (False, [Inherited XmlWellFormed False])"
proof -
  let ?v = "example_validator True False [(''document.xml'', Malformed)] BadZip"
  let ?u = "example_validator False True [] BadZip"
  have w: "validate_whitespace_preservation id ?v = (False, [FileError ''document.xml''])"
    by (simp add: validate_whitespace_preservation_def scan_files_def example_validator_def)
  have d: "validate_deletions id ?v = (False, [FileError ''document.xml''])"
    by (simp add: validate_deletions_def scan_files_def example_validator_def)
  have p: "compare_paragraph_counts ?v = Paragraphs 0 0 0"
    by (simp add: compare_paragraph_counts_def count_paragraphs_in_original_def
        count_paragraphs_in_unpacked_def example_validator_def)
  have x: "validate_xml ?v" "\<not> validate_xml ?u" "\<not> validate_unique_ids ?v"
    "\<not> validate_file_references ?v" "\<not> validate_content_types ?v"
    "\<not> validate_against_xsd ?v" "\<not> validate_all_relationship_ids ?v"
    by (simp_all add: example_validator_def)
  have "fst (docx_validate id ?v) = False \<and> snd (docx_validate id ?v) =
        [Inherited XmlWellFormed True, Inherited UniqueIds False,
         Inherited FileReferences False, Inherited ContentTypes False,
         Inherited XsdSchema False,
         Scanned WhitespacePreservation False [FileError ''document.xml''],
         Scanned Deletions False [FileError ''document.xml''],
         Inherited RelationshipIds False, Paragraphs 0 0 0]"
    using orchestrator_aggregate [of id ?v] x by (simp add: w d p)
  moreover have "fst (docx_validate id ?u) = False \<and>
      snd (docx_validate id ?u) = [Inherited XmlWellFormed False]"
    using orchestrator_aggregate [of id ?u] x by simp
  ultimately show ?thesis by (simp add: prod_eq_iff)
qed

text \<open>
  With XML that is not well-formed no other check is run or reported, although others
  would fail too.
\<close>

theorem orchestrator_counterexample:
  "\<not> validate_unique_ids (example_validator False False [(''document.xml'', Malformed)] BadZip) \<and>
   \<not> fst (validate_whitespace_preservation id
        (example_validator False False [(''document.xml'', Malformed)] BadZip)) \<and>
   docx_validate id (example_validator False False [(''document.xml'', Malformed)] BadZip)
     = (False, [Inherited XmlWellFormed False])"
  by (simp add: docx_validate_def validate_whitespace_preservation_def scan_files_def
      example_validator_def)

subsection \<open>The paragraph counts\<close>

lemma whitespace_flagged_original [simp]:
  "whitespace_flagged (v\<lparr>original_file := original\<rparr>) = whitespace_flagged v"
  by (simp add: fun_eq_iff whitespace_flagged_def xml_space_attr_def)

lemma whitespace_errors_original [simp]:
  "whitespace_errors repr (v\<lparr>original_file := original\<rparr>) = whitespace_errors repr v"
  by (simp add: fun_eq_iff whitespace_errors_def)

text \<open>
  C10. The paragraph counts do not enter the result: it is the same whatever the original
  package is, and two runs whose eight checks agree return the same result, whatever
  their paragraph counts are.
\<close>

theorem paragraph_counts_informational:
  "fst (docx_validate repr (v\<lparr>original_file := original\<rparr>)) = fst (docx_validate repr v) \<and>
   (validate_xml v = validate_xml v' \<and>
    validate_unique_ids v = validate_unique_ids v' \<and>
    validate_file_references v = validate_file_references v' \<and>
    validate_content_types v = validate_content_types v' \<and>
    validate_against_xsd v = validate_against_xsd v' \<and>
    fst (validate_whitespace_preservation repr v) = fst (validate_whitespace_preservation repr v') \<and>
    fst (validate_deletions repr v) = fst (validate_deletions repr v') \<and>
    validate_all_relationship_ids v = validate_all_relationship_ids v' \<longrightarrow>
    fst (docx_validate repr v) = fst (docx_validate repr v'))"
proof -
  have "fst (docx_validate repr (v\<lparr>original_file := original\<rparr>)) = fst (docx_validate repr v)"
    by (simp add: docx_validate_result validate_whitespace_preservation_def
        validate_deletions_def)
  then show ?thesis by (simp add: docx_validate_result)
qed

theorem paragraph_counts_informational_witness:
  "docx_validate id
     (example_validator True True [(''document.xml'', Parsed two_paragraphs)]
        (Unpacked (Parsed one_paragraph)))
   = (True,
      [Inherited XmlWellFormed True, Inherited UniqueIds True, Inherited FileReferences True,
       Inherited ContentTypes True, Inherited XsdSchema True,
       Scanned WhitespacePreservation True [], Scanned Deletions True [],
       Inherited RelationshipIds True, Paragraphs 1 2 1]) \<and>
   fst (docx_validate id
     (example_validator True True [(''document.xml'', Parsed one_paragraph)]
        (Unpacked (Parsed one_paragraph))))"
proof -
  let ?v = "example_validator True True [(''document.xml'', Parsed two_paragraphs)]
        (Unpacked (Parsed one_paragraph))"
  let ?v' = "example_validator True True [(''document.xml'', Parsed one_paragraph)]
        (Unpacked (Parsed one_paragraph))"
  have v: "docx_validate id ?v = (True,
      [Inherited XmlWellFormed True, Inherited UniqueIds True, Inherited FileReferences True,
       Inherited ContentTypes True, Inherited XsdSchema True,
       Scanned WhitespacePreservation True [], Scanned Deletions True [],
       Inherited RelationshipIds True, Paragraphs 1 2 1])"
    by (simp add: docx_validate_def validate_whitespace_preservation_def
        validate_deletions_def scan_files_def whitespace_errors_def whitespace_flagged_def
        deletion_errors_def xpath_del_t_def iter_tag_def truthy_def match_leading_def
        is_space_def compare_paragraph_counts_def count_paragraphs_in_original_def
        count_paragraphs_in_unpacked_def findall_def example_validator_def
        one_paragraph_def two_paragraphs_def example_defs)
  have wv: "fst (validate_whitespace_preservation id ?v)"
    by (simp add: validate_whitespace_preservation_def scan_files_def whitespace_errors_def
        whitespace_flagged_def iter_tag_def truthy_def match_leading_def is_space_def
        example_validator_def two_paragraphs_def example_defs)
  have dv: "fst (validate_deletions id ?v)"
    by (simp add: validate_deletions_def scan_files_def deletion_errors_def xpath_del_t_def
        example_validator_def two_paragraphs_def example_defs)
  have w: "fst (validate_whitespace_preservation id ?v')"
    by (simp add: validate_whitespace_preservation_def scan_files_def whitespace_errors_def
        whitespace_flagged_def iter_tag_def truthy_def match_leading_def is_space_def
        example_validator_def one_paragraph_def example_defs)
  have d: "fst (validate_deletions id ?v')"
    by (simp add: validate_deletions_def scan_files_def deletion_errors_def xpath_del_t_def
        example_validator_def one_paragraph_def example_defs)
  have e: "validate_xml ?v = validate_xml ?v' \<and>
    validate_unique_ids ?v = validate_unique_ids ?v' \<and>
    validate_file_references ?v = validate_file_references ?v' \<and>
    validate_content_types ?v = validate_content_types ?v' \<and>
    validate_against_xsd ?v = validate_against_xsd ?v' \<and>
    validate_all_relationship_ids ?v = validate_all_relationship_ids ?v'"
    by (simp add: example_validator_def)
  from paragraph_counts_informational [where repr = id and v = ?v and v' = ?v'] v w d wv dv e
  have "fst (docx_validate id ?v')" by simp
  with v show ?thesis by simp
qed

subsection \<open>The deletion check\<close>

lemma descendants_descendants:
  "d \<in> set (descendants e) \<Longrightarrow> x \<in> set (descendants d) \<Longrightarrow> x \<in> set (descendants e)"
  by (induction e) auto

lemma select_t_inside:
  "set (select_t True e) = {x \<in> set (e # descendants e). tag x = t_tag}"
  by (induction e) auto

lemma select_t_outside:
  "set (select_t False e) =
     {x. \<exists>d\<in>set (e # descendants e). tag d = del_tag \<and> x \<in> set (descendants d) \<and> tag x = t_tag}"
proof (induction e)
  case (Element tg at tx cs)
  show ?case
  proof (cases "tg = del_tag")
    case True
    have "set (select_t False (Element tg at tx cs))
        = {x \<in> set (descendants (Element tg at tx cs)). tag x = t_tag}"
      using True by (auto simp: select_t_inside)
    also have "\<dots> = {x. \<exists>d\<in>set (Element tg at tx cs # descendants (Element tg at tx cs)).
        tag d = del_tag \<and> x \<in> set (descendants d) \<and> tag x = t_tag}"
      using True descendants_descendants [of _ "Element tg at tx cs"] by fastforce
    finally show ?thesis .
  next
    case False
    have "set (select_t False (Element tg at tx cs)) = (\<Union>c\<in>set cs. set (select_t False c))"
      using False by simp
    also have "\<dots> = (\<Union>c\<in>set cs. {x. \<exists>d\<in>set (c # descendants c).
        tag d = del_tag \<and> x \<in> set (descendants d) \<and> tag x = t_tag})"
      using Element.IH by simp
    also have "\<dots> = {x. \<exists>d\<in>set (Element tg at tx cs # descendants (Element tg at tx cs)).
        tag d = del_tag \<and> x \<in> set (descendants d) \<and> tag x = t_tag}"
      using False by auto
    finally show ?thesis .
  qed
qed

lemma set_xpath_del_t:
  "set (xpath_del_t root) = {x. \<exists>d\<in>set (findall del_tag root). x \<in> set (findall t_tag d)}"
proof -
  have "set (xpath_del_t root) = (\<Union>c\<in>set (children root). {x. \<exists>d\<in>set (c # descendants c).
        tag d = del_tag \<and> x \<in> set (descendants d) \<and> tag x = t_tag})"
    by (simp add: xpath_del_t_def select_t_outside)
  also have "\<dots> = {x. \<exists>d\<in>set (descendants root).
        tag d = del_tag \<and> x \<in> set (descendants d) \<and> tag x = t_tag}"
    by (cases root) auto
  finally show ?thesis by (auto simp: findall_def)
qed

text \<open>
  C8 (as amended). The deletion check reports exactly the ordinary text elements with a
  non-empty text that are descendants, at any depth, of a deletion marker below the root
  of a \<^verbatim>\<open>document.xml\<close>, all of them; for a document with one deletion marker around
  one text element \<^verbatim>\<open>hello\<close> it returns exactly one violation.
\<close>

theorem deletion_check_reports:
  "set (deletion_errors repr name root) =
     (\<lambda>x. DeletionViolation name (text_preview repr (the (elem_text x)))) `
       {x. truthy (elem_text x) \<and> (\<exists>d\<in>set (findall del_tag root). x \<in> set (findall t_tag d))} \<and>
   validate_deletions repr (v\<lparr>xml_files := [(''document.xml'', Parsed (hello_deleted author))]\<rparr>)
     = (False, [DeletionViolation ''document.xml'' (text_preview repr ''hello'')])"
proof -
  have "set (deletion_errors repr name root) =
     (\<lambda>x. DeletionViolation name (text_preview repr (the (elem_text x)))) `
       {x \<in> set (xpath_del_t root). truthy (elem_text x)}"
    by (simp add: deletion_errors_def)
  also have "{x \<in> set (xpath_del_t root). truthy (elem_text x)} =
      {x. truthy (elem_text x) \<and> (\<exists>d\<in>set (findall del_tag root). x \<in> set (findall t_tag d))}"
    by (auto simp: set_xpath_del_t)
  finally have a: "set (deletion_errors repr name root) =
     (\<lambda>x. DeletionViolation name (text_preview repr (the (elem_text x)))) `
       {x. truthy (elem_text x) \<and> (\<exists>d\<in>set (findall del_tag root). x \<in> set (findall t_tag d))}" .
  have b: "validate_deletions repr
      (v\<lparr>xml_files := [(''document.xml'', Parsed (hello_deleted author))]\<rparr>)
     = (False, [DeletionViolation ''document.xml'' (text_preview repr ''hello'')])"
    by (simp add: validate_deletions_def scan_files_def deletion_errors_def xpath_del_t_def
        truthy_def hello_deleted_def example_defs)
  from a b show ?thesis by simp
qed

theorem deletion_check_reports_witness:
  "deletion_errors id ''document.xml'' two_deleted
     = [DeletionViolation ''document.xml'' ''one'', DeletionViolation ''document.xml'' ''two''] \<and>
   DeletionViolation ''document.xml'' ''two'' \<in>
     (\<lambda>x. DeletionViolation ''document.xml'' (text_preview id (the (elem_text x)))) `
       {x. truthy (elem_text x) \<and>
           (\<exists>d\<in>set (findall del_tag two_deleted). x \<in> set (findall t_tag d))}"
proof -
  have e: "deletion_errors id ''document.xml'' two_deleted
     = [DeletionViolation ''document.xml'' ''one'', DeletionViolation ''document.xml'' ''two'']"
    by (simp add: deletion_errors_def xpath_del_t_def truthy_def text_preview_def
        two_deleted_def example_defs)
  have m: "DeletionViolation ''document.xml'' ''two''
      \<in> set (deletion_errors id ''document.xml'' two_deleted)"
    by (simp add: e)
  have s: "set (deletion_errors id ''document.xml'' two_deleted) =
     (\<lambda>x. DeletionViolation ''document.xml'' (text_preview id (the (elem_text x)))) `
       {x. truthy (elem_text x) \<and>
           (\<exists>d\<in>set (findall del_tag two_deleted). x \<in> set (findall t_tag d))}"
    using deletion_check_reports [of id "''document.xml''" two_deleted] by (rule conjunct1)
  have "DeletionViolation ''document.xml'' ''two'' \<in>
     (\<lambda>x. DeletionViolation ''document.xml'' (text_preview id (the (elem_text x)))) `
       {x. truthy (elem_text x) \<and>
           (\<exists>d\<in>set (findall del_tag two_deleted). x \<in> set (findall t_tag d))}"
    using m unfolding s .
  with e show ?thesis by (simp only: simp_thms)
qed

text \<open>
  A text element without text under a deletion marker is not reported, and neither is a
  text element whose only deletion ancestor is the root.
\<close>

theorem deletion_check_counterexample:
  "xpath_del_t empty_text_deleted = [Element t_tag [] None []] \<and>
   validate_deletions id
     (example_validator True True [(''document.xml'', Parsed empty_text_deleted)] BadZip)
     = (True, []) \<and>
   tag deletion_root = del_tag \<and>
   findall t_tag deletion_root = [Element t_tag [] (Some ''hello'') []] \<and>
   validate_deletions id
     (example_validator True True [(''document.xml'', Parsed deletion_root)] BadZip)
     = (True, [])"
  by (simp add: validate_deletions_def scan_files_def deletion_errors_def xpath_del_t_def
      truthy_def findall_def empty_text_deleted_def deletion_root_def example_validator_def
      example_defs)

subsection \<open>The whitespace check\<close>

text \<open>
  C9. A text that ends with a space after a line break, in an element without the
  preserve attribute, is not flagged: \<^verbatim>\<open>.\<close> does not match the newline, so
  \<^verbatim>\<open>.*\s$\<close> fails on it.
\<close>

theorem trailing_space_after_newline_not_flagged:
  "is_space (last multiline_text) \<and>
   get (Element t_tag [] (Some multiline_text) []) ''{http://www.w3.org/XML/1998/namespace}space''
     = None \<and>
   validate_whitespace_preservation id
     (example_validator True True
        [(''document.xml'', Parsed (document [para [run t_tag multiline_text]]))] BadZip)
     = (True, [])"
  by (simp add: validate_whitespace_preservation_def scan_files_def whitespace_errors_def
      whitespace_flagged_def iter_tag_def truthy_def match_leading_def is_space_def get_def
      multiline_text_def example_validator_def example_defs)

lemma match_trailing_single_line:
  "CHR 0x0A \<notin> set s \<Longrightarrow> match_trailing s \<longleftrightarrow> s \<noteq> [] \<and> is_space (last s)"
  by (induction s) auto

text \<open>
  On a text without a line break the two patterns do say that the text starts or ends
  with a whitespace character.
\<close>

lemma whitespace_flagged_single_line:
  assumes "elem_text elem = Some s" and "CHR 0x0A \<notin> set s"
  shows "whitespace_flagged v elem \<longleftrightarrow>
     s \<noteq> [] \<and> (is_space (hd s) \<or> is_space (last s)) \<and>
     get elem (xml_space_attr v) \<noteq> Some ''preserve''"
  using assms
  by (cases s) (auto simp: whitespace_flagged_def truthy_def match_leading_def
      match_trailing_single_line)

lemma whitespace_examples:
  "whitespace_flagged v (Element t_tag [] (Some '' hello'') [])"
  "\<not> whitespace_flagged v (Element t_tag at (Some ''hello'') cs)"
  by (simp_all add: whitespace_flagged_def truthy_def match_leading_def is_space_def get_def)

section \<open>The resolver on element objects computes the resolver on trees\<close>

subsection \<open>A walk with any body\<close>

lemma frame_holds: "holds s t \<Longrightarrow> \<forall>x\<in>set (addrs t). s' x = s x \<Longrightarrow> holds s' t"
  by (induction t) auto

lemma frame_holds': "holds s t \<Longrightarrow> frame s s' as \<Longrightarrow> set (addrs t) \<inter> set as = {} \<Longrightarrow> holds s' t"
  by (rule frame_holds) (auto simp: frame_def)

lemma frame_trans:
  assumes "frame s s1 as" and "frame s1 s2 bs" and "set as \<subseteq> set cs" and "set bs \<subseteq> set cs"
  shows "frame s s2 cs"
  unfolding frame_def
proof (intro allI impI)
  fix x assume "x \<notin> set cs"
  with assms(3,4) have "x \<notin> set as" "x \<notin> set bs" by auto
  with assms(1,2) show "s2 x = s x" by (simp add: frame_def)
qed

lemma finishesI: "(\<And>m. n \<le> m \<Longrightarrow> f m = Some r) \<Longrightarrow> finishes f r"
  by (auto simp: finishes_def)

lemma drop_Cons_facts:
  assumes "drop i xs = y # ys"
  shows "i < length xs" and "xs ! i = y" and "drop (Suc i) xs = ys"
proof -
  show "i < length xs" using assms by (cases "i < length xs") auto
  show "xs ! i = y" using assms by (rule nth_via_drop)
  have "drop (Suc i) xs = tl (drop i xs)" by (simp add: drop_Suc tl_drop)
  with assms show "drop (Suc i) xs = ys" by simp
qed

lemma addr_of_in_addrs [simp]: "addr_of t \<in> set (addrs t)"
  by (cases t) simp

lemma kids_loop:
  assumes "list_all2 (simulates body) cs cs'"
    and "distinct (concat (map addrs cs))" and "a \<notin> set (concat (map addrs cs))"
    and "s a = Some nd" and "drop i (kids nd) = map addr_of cs"
    and "\<forall>c\<in>set cs. holds s c"
  shows "\<exists>s'. finishes (\<lambda>m. iter_kids body m a i s) s' \<and> (\<forall>c'\<in>set cs'. holds s' c') \<and>
              s' a = s a \<and> frame s s' (concat (map addrs cs))"
  using assms
proof (induction arbitrary: i s rule: list_all2_induct)
  case Nil
  then have "\<not> i < length (kids nd)" by simp
  with Nil.prems have "\<And>m. 1 \<le> m \<Longrightarrow> iter_kids body m a i s = Some s"
    by (case_tac m) auto
  then have "finishes (\<lambda>m. iter_kids body m a i s) s" by (rule finishesI)
  then show ?case by (auto simp: frame_def)
next
  case (Cons c cs c' cs')
  from Cons.prems have dc: "distinct (addrs c)" and dcs: "distinct (concat (map addrs cs))"
    and disj: "set (addrs c) \<inter> set (concat (map addrs cs)) = {}"
    and a: "a \<notin> set (addrs c)" "a \<notin> set (concat (map addrs cs))"
    by auto
  from Cons.prems(4) have dd: "drop i (kids nd) = addr_of c # map addr_of cs" by simp
  note i = drop_Cons_facts(1) [OF dd] and nth = drop_Cons_facts(2) [OF dd]
    and dr = drop_Cons_facts(3) [OF dd]
  from Cons.prems have hc: "holds s c" and hcs: "\<forall>r\<in>set cs. holds s r" by auto
  from Cons.hyps(1) dc hc obtain s2 where
    ac: "addr_of c' = addr_of c" and sub: "set (addrs c') \<subseteq> set (addrs c)"
    and f2: "finishes (\<lambda>m. iter_pass body m (addr_of c) s) s2" and h2: "holds s2 c'"
    and fr2: "frame s s2 (addrs c)"
    unfolding simulates_def by blast
  have s2a: "s2 a = Some nd" using fr2 a Cons.prems(3) by (simp add: frame_def)
  have h2cs: "\<forall>r\<in>set cs. holds s2 r"
  proof
    fix r assume r: "r \<in> set cs"
    with hcs have "holds s r" by simp
    moreover have "set (addrs r) \<inter> set (addrs c) = {}" using disj r by auto
    ultimately show "holds s2 r" using fr2 by (auto intro: frame_holds')
  qed
  from Cons.IH [OF dcs a(2) s2a dr h2cs] obtain s3 where
    f3: "finishes (\<lambda>m. iter_kids body m a (Suc i) s2) s3" and h3: "\<forall>c'\<in>set cs'. holds s3 c'"
    and s3a: "s3 a = s2 a" and fr3: "frame s2 s3 (concat (map addrs cs))"
    by blast
  from f2 obtain n1 where n1: "\<forall>m\<ge>n1. iter_pass body m (addr_of c) s = Some s2"
    unfolding finishes_def by blast
  from f3 obtain n2 where n2: "\<forall>m\<ge>n2. iter_kids body m a (Suc i) s2 = Some s3"
    unfolding finishes_def by blast
  have "finishes (\<lambda>m. iter_kids body m a i s) s3"
  proof (rule finishesI)
    fix m assume "Suc (max n1 n2) \<le> m"
    then obtain k where m: "m = Suc k" and k: "n1 \<le> k" "n2 \<le> k"
      by (cases m) auto
    show "iter_kids body m a i s = Some s3"
      using Cons.prems(3) i nth n1 n2 k by (simp add: m)
  qed
  moreover have "holds s3 c'"
  proof -
    have "set (addrs c') \<inter> set (concat (map addrs cs)) = {}" using sub disj by auto
    with h2 fr3 show ?thesis by (rule frame_holds')
  qed
  moreover have "s3 a = s a" using s3a s2a Cons.prems(3) by simp
  moreover have "frame s s3 (concat (map addrs (c # cs)))"
    using fr2 fr3 by (rule frame_trans) auto
  ultimately show ?case using h3 by auto
qed

lemma distinct_concat_shrink:
  assumes "list_all2 (\<lambda>c c'. distinct (addrs c) \<longrightarrow> set (addrs c') \<subseteq> set (addrs c) \<and> distinct (addrs c')) cs cs'"
    and "distinct (concat (map addrs cs))"
  shows "distinct (concat (map addrs cs')) \<and>
         set (concat (map addrs cs')) \<subseteq> set (concat (map addrs cs))"
  using assms
proof (induction rule: list_all2_induct)
  case Nil
  then show ?case by simp
next
  case (Cons c cs c' cs')
  from Cons.prems have d: "distinct (addrs c)" "distinct (concat (map addrs cs))"
    and disj: "set (addrs c) \<inter> set (concat (map addrs cs)) = {}"
    by auto
  from Cons.hyps(1) d(1) have c: "set (addrs c') \<subseteq> set (addrs c)" "distinct (addrs c')"
    by auto
  from Cons.IH [OF d(2)] have r: "distinct (concat (map addrs cs'))"
    "set (concat (map addrs cs')) \<subseteq> set (concat (map addrs cs))" by auto
  from c(1) r(2) disj have "set (addrs c') \<inter> set (concat (map addrs cs')) = {}" by blast
  with c r show ?case by auto
qed

lemma traversal:
  assumes body: "\<And>s t. holds s t \<Longrightarrow> distinct (addrs t) \<Longrightarrow>
      \<exists>s1. finishes (\<lambda>m. body m s (addr_of t)) s1 \<and> holds s1 (g t) \<and> frame s s1 (addrs t)"
    and g: "\<And>t. distinct (addrs t) \<Longrightarrow>
      addr_of (g t) = addr_of t \<and> set (addrs (g t)) \<subseteq> set (addrs t) \<and> distinct (addrs (g t))"
  shows "trav g t t' \<Longrightarrow> simulates body t t'"
proof (induction rule: trav.induct)
  case (1 t a tg at tx cs cs')
  show ?case
    unfolding simulates_def
  proof (intro impI conjI allI)
    assume dt: "distinct (addrs t)"
    from g [OF dt] "1.hyps"(1) have a: "a = addr_of t"
      and sub: "set (a # concat (map addrs cs)) \<subseteq> set (addrs t)"
      and dg: "distinct (a # concat (map addrs cs))"
      by auto
    from "1.IH" have sims: "list_all2 (simulates body) cs cs'"
      by (rule list_all2_mono) simp
    have "list_all2 (\<lambda>c c'. distinct (addrs c) \<longrightarrow>
        set (addrs c') \<subseteq> set (addrs c) \<and> distinct (addrs c')) cs cs'"
      using sims by (rule list_all2_mono) (simp add: simulates_def)
    with dg have shrink: "distinct (concat (map addrs cs'))"
        "set (concat (map addrs cs')) \<subseteq> set (concat (map addrs cs))"
      using distinct_concat_shrink by auto
    have same: "map addr_of cs' = map addr_of cs"
    proof -
      have "list_all2 (\<lambda>c c'. addr_of c' = addr_of c) cs cs'"
        using sims dg
      proof (induction rule: list_all2_induct)
        case Nil
        then show ?case by simp
      next
        case (Cons c cs c' cs')
        then show ?case by (auto simp: simulates_def)
      qed
      then show ?thesis
        by (induction rule: list_all2_induct) auto
    qed
    show "addr_of (LNode a tg at tx cs') = addr_of t" using a by simp
    show "set (addrs (LNode a tg at tx cs')) \<subseteq> set (addrs t)" using sub shrink by auto
    show "distinct (addrs (LNode a tg at tx cs'))" using dg shrink by auto
    fix s assume hs: "holds s t"
    from body [OF hs dt] "1.hyps"(1) obtain s1 where
      fb: "finishes (\<lambda>m. body m s (addr_of t)) s1" and h1: "holds s1 (LNode a tg at tx cs)"
      and fr1: "frame s s1 (addrs t)"
      by auto
    let ?nd = "\<lparr>ntag = tg, nattrib = at, ntext = tx, kids = map addr_of cs\<rparr>"
    from h1 have s1a: "s1 a = Some ?nd" and h1cs: "\<forall>c\<in>set cs. holds s1 c" by auto
    have "drop 0 (kids ?nd) = map addr_of cs" by simp
    from kids_loop [OF sims _ _ s1a this h1cs] dg obtain s' where
      fk: "finishes (\<lambda>m. iter_kids body m a 0 s1) s'" and h': "\<forall>c'\<in>set cs'. holds s' c'"
      and s'a: "s' a = s1 a" and fr': "frame s1 s' (concat (map addrs cs))"
      by auto
    from fb obtain n1 where n1: "\<forall>m\<ge>n1. body m s (addr_of t) = Some s1"
      unfolding finishes_def by blast
    from fk obtain n2 where n2: "\<forall>m\<ge>n2. iter_kids body m a 0 s1 = Some s'"
      unfolding finishes_def by blast
    have "finishes (\<lambda>m. iter_pass body m (addr_of t) s) s'"
    proof (rule finishesI)
      fix m assume "Suc (max n1 n2) \<le> m"
      then obtain k where m: "m = Suc k" and k: "n1 \<le> k" "n2 \<le> k"
        by (cases m) auto
      show "iter_pass body m (addr_of t) s = Some s'"
        using n1 n2 k a by (simp add: m)
    qed
    moreover have "holds s' (LNode a tg at tx cs')"
      using s'a s1a h' same by simp
    moreover have "frame s s' (addrs t)"
      using fr1 fr' by (rule frame_trans) (use sub in auto)
    ultimately show "\<exists>s'. finishes (\<lambda>m. iter_pass body m (addr_of t) s) s' \<and>
        holds s' (LNode a tg at tx cs') \<and> frame s s' (addrs t)"
      by blast
  qed
qed

subsection \<open>Renaming deleted text\<close>

lemma holds_root:
  "holds s t \<Longrightarrow> s (addr_of t) =
     Some \<lparr>ntag = ltag t, nattrib = lattrib t, ntext = ltext t, kids = map addr_of (lkids t)\<rparr>"
  by (cases t) simp

lemma holds_update_root:
  assumes "holds s (LNode a tg at tx cs)" and "distinct (addrs (LNode a tg at tx cs))"
  shows "holds (s(a \<mapsto> \<lparr>ntag = tg', nattrib = at', ntext = tx', kids = map addr_of cs'\<rparr>))
           (LNode a tg' at' tx' cs') \<longleftrightarrow>
         (\<forall>c\<in>set cs'. holds (s(a \<mapsto> \<lparr>ntag = tg', nattrib = at', ntext = tx', kids = map addr_of cs'\<rparr>)) c)"
  by simp

lemma holds_update_other: "holds s c \<Longrightarrow> a \<notin> set (addrs c) \<Longrightarrow> holds (s(a \<mapsto> nd)) c"
  by (rule frame_holds) auto

lemma trav_rename: "trav rename_step t (to_t_l t)"
proof (induction t)
  case (LNode a tg at tx cs)
  have "list_all2 (trav rename_step) cs (map to_t_l cs)"
    using LNode by (simp add: list_all2_map2 list_all2_same)
  then show ?case
    using trav.intros [of rename_step "LNode a tg at tx cs"] by simp
qed

lemma rename_body_ok:
  assumes "holds s t" and "distinct (addrs t)"
  shows "\<exists>s1. finishes (\<lambda>m. rename_body m s (addr_of t)) s1 \<and> holds s1 (rename_step t) \<and>
              frame s s1 (addrs t)"
proof (cases t)
  case (LNode a tg at tx cs)
  let ?nd = "\<lparr>ntag = tg, nattrib = at, ntext = tx, kids = map addr_of cs\<rparr>"
  let ?s1 = "if tg = deltext_tag then s(a \<mapsto> ?nd\<lparr>ntag := t_tag\<rparr>) else s"
  from assms LNode have sa: "s a = Some ?nd" and hc: "\<forall>c\<in>set cs. holds s c"
    and na: "\<forall>c\<in>set cs. a \<notin> set (addrs c)" by auto
  have "\<And>m. rename_body m s a = Some ?s1"
    using sa by (simp add: rename_body_def)
  then have "finishes (\<lambda>m. rename_body m s (addr_of t)) ?s1"
    using LNode by (simp add: finishes_def)
  moreover have "holds ?s1 (rename_step t)"
    using LNode sa hc na by (auto intro: holds_update_other)
  moreover have "frame s ?s1 (addrs t)"
    using LNode by (simp add: frame_def)
  ultimately show ?thesis by blast
qed

lemma rename_step_ok:
  "distinct (addrs t) \<Longrightarrow> addr_of (rename_step t) = addr_of t \<and>
     set (addrs (rename_step t)) \<subseteq> set (addrs t) \<and> distinct (addrs (rename_step t))"
  by (cases t) simp

lemma simulates_rename: "simulates rename_body t (to_t_l t)"
  by (rule traversal [where body = rename_body and g = rename_step,
        OF rename_body_ok rename_step_ok trav_rename])

lemma erase_to_t_l [simp]: "erase (to_t_l t) = to_t (erase t)"
  by (induction t) simp

lemma addr_of_to_t_l [simp]: "addr_of (to_t_l t) = addr_of t"
  by (cases t) simp

lemma addrs_to_t_l [simp]: "addrs (to_t_l t) = addrs t"
  by (induction t) (simp add: comp_def cong: map_cong)

lemma kids_to_t_l [simp]: "map addr_of (lkids (to_t_l t)) = map addr_of (lkids t)"
  by (cases t) (simp add: comp_def)

subsection \<open>The first loop\<close>

lemma holds_claude_at:
  assumes "holds s c"
  shows "claude_ins_at s (addr_of c) = claude_ins (erase c)"
    and "claude_del_at s (addr_of c) = claude_del (erase c)"
  using assms
  by (cases c; simp add: claude_ins_at_def claude_del_at_def claude_ins_def claude_del_def get_def)+

lemma fold_remove_child:
  "s p = Some nd \<Longrightarrow> fold (remove_child p) es s = s(p \<mapsto> nd\<lparr>kids := fold remove1 es (kids nd)\<rparr>)"
proof (induction es arbitrary: s nd)
  case Nil
  then show ?case by (simp add: fun_upd_idem)
next
  case (Cons e es)
  let ?nd1 = "nd\<lparr>kids := remove1 e (kids nd)\<rparr>"
  let ?s1 = "s(p \<mapsto> ?nd1)"
  have 1: "remove_child p e s = ?s1" using Cons.prems by (simp add: remove_child_def)
  have 2: "?s1 p = Some ?nd1" by simp
  have "fold (remove_child p) (e # es) s = fold (remove_child p) es ?s1" by (simp add: 1)
  also have "\<dots> = ?s1(p \<mapsto> ?nd1\<lparr>kids := fold remove1 es (kids ?nd1)\<rparr>)"
    using 2 by (rule Cons.IH [of ?s1 ?nd1])
  also have "\<dots> = s(p \<mapsto> nd\<lparr>kids := fold remove1 (e # es) (kids nd)\<rparr>)" by simp
  finally show ?case .
qed

lemma remove1_distinct: "distinct ys \<Longrightarrow> remove1 r ys = filter (\<lambda>y. r \<noteq> y) ys"
  by (simp add: distinct_remove1_removeAll removeAll_filter_not_eq)

lemma fold_remove1_distinct:
  "distinct ys \<Longrightarrow> fold remove1 rs ys = filter (\<lambda>y. y \<notin> set rs) ys"
proof (induction rs arbitrary: ys)
  case Nil
  then show ?case by simp
next
  case (Cons r rs)
  have r: "remove1 r ys = filter (\<lambda>y. r \<noteq> y) ys"
    using Cons.prems by (rule remove1_distinct)
  have "distinct (remove1 r ys)" using Cons.prems by simp
  from Cons.IH [OF this]
  have "fold remove1 (r # rs) ys = filter (\<lambda>y. y \<notin> set rs) (filter (\<lambda>y. r \<noteq> y) ys)"
    by (simp add: r)
  also have "\<dots> = filter (\<lambda>y. y \<notin> set (r # rs)) ys"
    by (auto intro: filter_cong)
  finally show ?case .
qed

lemma filter_addresses:
  assumes "distinct (map f cs)" and "\<forall>c\<in>set cs. Q (f c) = P c"
  shows "filter (\<lambda>y. y \<notin> set (filter Q (map f cs))) (map f cs) = map f (filter (\<lambda>c. \<not> P c) cs)"
proof -
  have "y \<notin> set (filter Q (map f cs)) \<longleftrightarrow> \<not> Q y" if "y \<in> set (map f cs)" for y
    using that by auto
  then have "filter (\<lambda>y. y \<notin> set (filter Q (map f cs))) (map f cs) = filter (\<lambda>y. \<not> Q y) (map f cs)"
    by (intro filter_cong) auto
  also have "\<dots> = map f (filter (\<lambda>c. \<not> P c) cs)"
    using assms(2) by (simp add: filter_map comp_def cong: filter_cong)
  finally show ?thesis .
qed

lemma distinct_addr_of: "distinct (concat (map addrs cs)) \<Longrightarrow> distinct (map addr_of cs)"
proof (induction cs)
  case Nil
  then show ?case by simp
next
  case (Cons c cs)
  have "addr_of c \<notin> addr_of ` set cs"
  proof
    assume "addr_of c \<in> addr_of ` set cs"
    then obtain r where "r \<in> set cs" "addr_of r = addr_of c" by auto
    then have "addr_of c \<in> set (concat (map addrs cs))"
      using addr_of_in_addrs [of r] by auto
    moreover have "addr_of c \<in> set (addrs c)" by simp
    moreover from Cons.prems have "set (addrs c) \<inter> set (concat (map addrs cs)) = {}" by simp
    ultimately show False by blast
  qed
  with Cons show ?case by simp
qed

lemma distinct_concat_filter:
  "distinct (concat (map addrs cs)) \<Longrightarrow> distinct (concat (map addrs (filter P cs)))"
  by (induction cs) auto

lemma ins_body_ok:
  assumes "holds s t" and "distinct (addrs t)"
  shows "\<exists>s1. finishes (\<lambda>m. remove_ins_body m s (addr_of t)) s1 \<and> holds s1 (ins_step t) \<and>
              frame s s1 (addrs t)"
proof (cases t)
  case (LNode a tg at tx cs)
  let ?nd = "\<lparr>ntag = tg, nattrib = at, ntext = tx, kids = map addr_of cs\<rparr>"
  let ?cs' = "filter (\<lambda>c. \<not> claude_ins (erase c)) cs"
  let ?nd' = "\<lparr>ntag = tg, nattrib = at, ntext = tx, kids = map addr_of ?cs'\<rparr>"
  let ?s1 = "s(a \<mapsto> ?nd')"
  from assms LNode have sa: "s a = Some ?nd" and hc: "\<forall>c\<in>set cs. holds s c"
    and na: "\<forall>c\<in>set cs. a \<notin> set (addrs c)" and dc: "distinct (concat (map addrs cs))"
    by auto
  have d: "distinct (map addr_of cs)" using dc by (rule distinct_addr_of)
  have "\<forall>c\<in>set cs. claude_ins_at s (addr_of c) = claude_ins (erase c)"
    using hc by (simp add: holds_claude_at)
  with d have "filter (\<lambda>y. y \<notin> set (filter (claude_ins_at s) (map addr_of cs))) (map addr_of cs)
      = map addr_of ?cs'"
    by (rule filter_addresses)
  with d have r: "fold remove1 (filter (claude_ins_at s) (map addr_of cs)) (map addr_of cs)
      = map addr_of ?cs'"
    by (simp only: fold_remove1_distinct)
  have "fold (remove_child a) (filter (claude_ins_at s) (map addr_of cs)) s
      = s(a \<mapsto> ?nd\<lparr>kids := fold remove1 (filter (claude_ins_at s) (map addr_of cs)) (kids ?nd)\<rparr>)"
    using sa by (rule fold_remove_child)
  also have "\<dots> = ?s1" by (simp only: r node.simps)
  finally have "\<And>m. remove_ins_body m s a = Some ?s1"
    using sa by (simp add: remove_ins_body_def)
  then have 1: "finishes (\<lambda>m. remove_ins_body m s (addr_of t)) ?s1"
    using LNode by (simp add: finishes_def)
  have "\<forall>c\<in>set ?cs'. holds ?s1 c"
    using hc na by (simp add: holds_update_other)
  then have 2: "holds ?s1 (ins_step t)"
    using LNode by simp
  have 3: "frame s ?s1 (addrs t)"
    using LNode by (simp add: frame_def)
  from 1 2 3 show ?thesis by blast
qed

lemma ins_step_ok:
  "distinct (addrs t) \<Longrightarrow> addr_of (ins_step t) = addr_of t \<and>
     set (addrs (ins_step t)) \<subseteq> set (addrs t) \<and> distinct (addrs (ins_step t))"
  by (cases t) (auto simp: distinct_concat_filter)

lemma list_all2_choice: "\<forall>x\<in>set xs. \<exists>y. Q x y \<Longrightarrow> \<exists>ys. list_all2 Q xs ys"
proof (induction xs)
  case Nil
  then show ?case by simp
next
  case (Cons x xs)
  from Cons.prems obtain y where y: "Q x y" by auto
  from Cons.prems have "\<forall>x\<in>set xs. \<exists>y. Q x y" by simp
  then obtain ys where ys: "list_all2 Q xs ys" using Cons.IH by blast
  from y ys have "list_all2 Q (x # xs) (y # ys)" by simp
  then show ?case ..
qed

lemma trav_ins: "\<exists>t'. trav ins_step t t' \<and> erase t' = remove_ins (erase t)"
proof (induction t)
  case (LNode a tg at tx cs)
  let ?cs1 = "filter (\<lambda>c. \<not> claude_ins (erase c)) cs"
  let ?Q = "\<lambda>c c'. trav ins_step c c' \<and> erase c' = remove_ins (erase c)"
  have "\<forall>c\<in>set ?cs1. \<exists>c'. ?Q c c'"
    using LNode by simp
  then have "\<exists>cs'. list_all2 ?Q ?cs1 cs'"
    by (rule list_all2_choice)
  then obtain cs' where cs': "list_all2 ?Q ?cs1 cs'" ..
  then have t: "list_all2 (trav ins_step) ?cs1 cs'"
    by (rule list_all2_mono) simp
  from cs' have "map erase cs' = map (\<lambda>c. remove_ins (erase c)) ?cs1"
    by (induction rule: list_all2_induct) simp_all
  then have e: "erase (LNode a tg at tx cs') = remove_ins (erase (LNode a tg at tx cs))"
    by (simp add: filter_map comp_def)
  have "ins_step (LNode a tg at tx cs) = LNode a tg at tx ?cs1" by simp
  then have "trav ins_step (LNode a tg at tx cs) (LNode a tg at tx cs')"
    using t by (rule trav.intros)
  with e show ?case by blast
qed

lemma simulates_ins: "trav ins_step t t' \<Longrightarrow> simulates remove_ins_body t t'"
  by (rule traversal [where body = remove_ins_body and g = ins_step,
        OF ins_body_ok ins_step_ok])

subsection \<open>The second loop\<close>

lemma splice_l_simps [simp]:
  "splice_l [] = []"
  "splice_l (c # cs) = (if claude_del (erase c) then lkids (to_t_l c) else [c]) @ splice_l cs"
  by (simp_all add: splice_l_def)

lemma addrs_lkids: "concat (map addrs (lkids t)) = tl (addrs t)"
  by (cases t) simp

lemma addrs_unfold: "addrs t = addr_of t # concat (map addrs (lkids t))"
  by (cases t) simp

lemma addrs_splice_l:
  "set (concat (map addrs (splice_l cs))) \<subseteq> set (concat (map addrs cs))"
proof (induction cs)
  case Nil
  then show ?case by simp
next
  case (Cons c cs)
  have "set (concat (map addrs (lkids (to_t_l c)))) \<subseteq> set (addrs c)"
    using addrs_unfold [of "to_t_l c"] by (metis addrs_to_t_l set_subset_Cons)
  with Cons show ?case by auto
qed

lemma distinct_splice_l:
  "distinct (concat (map addrs cs)) \<Longrightarrow> distinct (concat (map addrs (splice_l cs)))"
proof (induction cs)
  case Nil
  then show ?case by simp
next
  case (Cons c cs)
  from Cons.prems have dc: "distinct (addrs c)" and dcs: "distinct (concat (map addrs cs))"
    and disj: "set (addrs c) \<inter> set (concat (map addrs cs)) = {}" by auto
  have k: "addrs c = addr_of c # concat (map addrs (lkids (to_t_l c)))"
    using addrs_unfold [of "to_t_l c"] by simp
  then have dk: "distinct (concat (map addrs (lkids (to_t_l c))))"
    and sk: "set (concat (map addrs (lkids (to_t_l c)))) \<subseteq> set (addrs c)"
    using dc by (metis distinct.simps(2), metis set_subset_Cons)
  have r: "distinct (concat (map addrs (splice_l cs)))" using dcs by (rule Cons.IH)
  have sr: "set (concat (map addrs (splice_l cs))) \<subseteq> set (concat (map addrs cs))"
    by (rule addrs_splice_l)
  show ?case
  proof (cases "claude_del (erase c)")
    case True
    from sk sr disj have "set (concat (map addrs (lkids (to_t_l c))))
        \<inter> set (concat (map addrs (splice_l cs))) = {}" by blast
    with True dk r show ?thesis by simp
  next
    case False
    from sr disj have "set (addrs c) \<inter> set (concat (map addrs (splice_l cs))) = {}" by blast
    with False dc r show ?thesis by simp
  qed
qed

lemma del_step_ok:
  "distinct (addrs t) \<Longrightarrow> addr_of (del_step t) = addr_of t \<and>
     set (addrs (del_step t)) \<subseteq> set (addrs t) \<and> distinct (addrs (del_step t))"
  using addrs_splice_l by (cases t) (auto simp: distinct_splice_l)

lemma fold_option_append:
  "fold_option f (xs @ ys) s =
     (case fold_option f xs s of None \<Rightarrow> None | Some s' \<Rightarrow> fold_option f ys s')"
  by (induction xs arbitrary: s) (auto split: option.splits)

lemma index_of_append:
  "x \<notin> set xs \<Longrightarrow> index_of x (xs @ x # ys) = length xs"
  by (induction xs) auto

lemma fold_insert_child:
  "s p = Some nd \<Longrightarrow> i \<le> length (kids nd) \<Longrightarrow>
     fold (insert_child p i) (rev xs) s = s(p \<mapsto> nd\<lparr>kids := take i (kids nd) @ xs @ drop i (kids nd)\<rparr>)"
proof (induction xs arbitrary: s nd rule: rev_induct)
  case Nil
  then show ?case by (simp add: fun_upd_idem)
next
  case (snoc x xs)
  let ?nd1 = "nd\<lparr>kids := take i (kids nd) @ x # drop i (kids nd)\<rparr>"
  let ?s1 = "s(p \<mapsto> ?nd1)"
  have 1: "insert_child p i x s = ?s1" using snoc.prems by (simp add: insert_child_def)
  have 2: "?s1 p = Some ?nd1" by simp
  have "fold (insert_child p i) (rev (xs @ [x])) s = fold (insert_child p i) (rev xs) ?s1"
    by (simp add: 1)
  also have "\<dots> = ?s1(p \<mapsto> ?nd1\<lparr>kids := take i (kids ?nd1) @ xs @ drop i (kids ?nd1)\<rparr>)"
    using 2 snoc.prems(2) by (intro snoc.IH [of ?s1 ?nd1]) simp_all
  also have "\<dots> = s(p \<mapsto> nd\<lparr>kids := take i (kids nd) @ (xs @ [x]) @ drop i (kids nd)\<rparr>)"
    using snoc.prems(2) by (simp add: min_def)
  finally show ?case .
qed

lemma addr_of_subset: "set (map addr_of cs) \<subseteq> set (concat (map addrs cs))"
proof (induction cs)
  case Nil
  then show ?case by simp
next
  case (Cons c cs)
  have "addr_of c \<in> set (addrs c)" by simp
  with Cons show ?case by auto
qed

lemma entries_simps [simp]:
  "entries ks [] = []"
  "entries ks (c # cs) =
     (if claude_del (erase c) then [(addr_of c, index_of (addr_of c) ks)] else []) @ entries ks cs"
  by (simp_all add: entries_def)

lemma finishes_const: "finishes (\<lambda>m. Some r) r"
  by (simp add: finishes_def)

lemma frame_mono: "frame s s' as \<Longrightarrow> set as \<subseteq> set bs \<Longrightarrow> frame s s' bs"
  by (auto simp: frame_def)

lemma frame_refl: "frame s s as"
  by (simp add: frame_def)

lemma process_suffix:
  assumes "distinct (a # concat (map addrs (pre @ post)))"
    and "s a = Some \<lparr>ntag = tg, nattrib = at, ntext = tx, kids = map addr_of (pre @ post)\<rparr>"
    and "\<forall>c\<in>set (pre @ post). holds s c"
  shows "\<exists>s'. finishes (\<lambda>m. fold_option (process_del m a)
                  (rev (entries (map addr_of (pre @ post)) post)) s) s' \<and>
      s' a = Some \<lparr>ntag = tg, nattrib = at, ntext = tx,
                   kids = map addr_of pre @ map addr_of (splice_l post)\<rparr> \<and>
      (\<forall>c\<in>set pre \<union> set (splice_l post). holds s' c) \<and>
      frame s s' (a # concat (map addrs post))"
  using assms
proof (induction post arbitrary: pre)
  case Nil
  then show ?case
    using finishes_const [of s] frame_refl [of s] by auto
next
  case (Cons c post)
  let ?full = "map addr_of (pre @ c # post)"
  let ?d = "addr_of c"
  let ?k = "length pre"
  let ?rest = "map addr_of (splice_l post)"
  have eq: "(pre @ [c]) @ post = pre @ c # post" by simp
  have "\<exists>s'. finishes (\<lambda>m. fold_option (process_del m a)
                  (rev (entries (map addr_of ((pre @ [c]) @ post)) post)) s) s' \<and>
      s' a = Some \<lparr>ntag = tg, nattrib = at, ntext = tx,
                   kids = map addr_of (pre @ [c]) @ map addr_of (splice_l post)\<rparr> \<and>
      (\<forall>c\<in>set (pre @ [c]) \<union> set (splice_l post). holds s' c) \<and>
      frame s s' (a # concat (map addrs post))"
    by (rule Cons.IH) (use Cons.prems in \<open>simp_all only: eq\<close>)
  then obtain s1 where
    f1: "finishes (\<lambda>m. fold_option (process_del m a) (rev (entries ?full post)) s) s1"
    and s1a: "s1 a = Some \<lparr>ntag = tg, nattrib = at, ntext = tx,
                   kids = map addr_of pre @ ?d # ?rest\<rparr>"
    and h1: "\<forall>x\<in>set pre \<union> {c} \<union> set (splice_l post). holds s1 x"
    and fr1: "frame s s1 (a # concat (map addrs post))"
    by (auto simp: eq)
  from Cons.prems(1) have dc: "distinct (addrs c)"
    and ac: "a \<notin> set (addrs c)"
    and apre: "a \<notin> set (concat (map addrs pre))"
    and apost: "a \<notin> set (concat (map addrs post))"
    and cpre: "set (addrs c) \<inter> set (concat (map addrs pre)) = {}"
    and cpost: "set (addrs c) \<inter> set (concat (map addrs post)) = {}"
    by auto
  show ?case
  proof (cases "claude_del (erase c)")
    case False
    have "frame s s1 (a # concat (map addrs (c # post)))"
      using fr1 by (rule frame_mono) auto
    with False f1 s1a h1 show ?thesis by auto
  next
    case True
    have dpre: "?d \<notin> set (map addr_of pre)"
      using addr_of_subset [of pre] cpre addr_of_in_addrs [of c] by blast
    have idx: "index_of ?d ?full = ?k"
      using index_of_append [OF dpre, of "map addr_of post"] by simp
    have ent: "rev (entries ?full (c # post)) = rev (entries ?full post) @ [(?d, ?k)]"
      using True idx by simp
    from h1 have hc: "holds s1 c" by simp
    from simulates_rename [of c] dc hc obtain s2 where
      f2: "finishes (\<lambda>m. iter_pass rename_body m ?d s1) s2"
      and h2: "holds s2 (to_t_l c)" and fr2: "frame s1 s2 (addrs c)"
      unfolding simulates_def by blast
    let ?xs = "map addr_of (lkids c)"
    let ?nd1 = "\<lparr>ntag = tg, nattrib = at, ntext = tx, kids = map addr_of pre @ ?d # ?rest\<rparr>"
    let ?nd3 = "\<lparr>ntag = tg, nattrib = at, ntext = tx, kids = map addr_of pre @ ?xs @ ?rest\<rparr>"
    let ?s3 = "s2(a \<mapsto> ?nd3)"
    have s2a: "s2 a = Some ?nd1" using fr2 ac s1a by (simp add: frame_def)
    have s2d: "s2 ?d = Some \<lparr>ntag = ltag (to_t_l c), nattrib = lattrib (to_t_l c),
        ntext = ltext (to_t_l c), kids = ?xs\<rparr>"
      using holds_root [OF h2] by simp
    have dxs: "?d \<notin> set ?xs"
    proof -
      have "set ?xs \<subseteq> set (concat (map addrs (lkids c)))" by (rule addr_of_subset)
      moreover have "addrs c = ?d # concat (map addrs (lkids c))" by (rule addrs_unfold)
      moreover from this dc have "?d \<notin> set (concat (map addrs (lkids c)))"
        by (metis distinct.simps(2))
      ultimately show ?thesis by blast
    qed
    have ins: "fold (insert_child a ?k) (rev ?xs) s2
        = s2(a \<mapsto> ?nd1\<lparr>kids := take ?k (kids ?nd1) @ ?xs @ drop ?k (kids ?nd1)\<rparr>)"
      using s2a by (rule fold_insert_child) simp
    have rem: "remove1 ?d (map addr_of pre @ ?xs @ ?d # ?rest) = map addr_of pre @ ?xs @ ?rest"
      using dpre dxs by (simp add: remove1_append)
    have step: "remove_child a ?d (fold (insert_child a ?k) (rev ?xs) s2) = ?s3"
      unfolding ins by (simp add: remove_child_def rem)
    have proc: "process_del m a (?d, ?k) s1 = Some ?s3" if "iter_pass rename_body m ?d s1 = Some s2" for m
      using that s2d step by (simp add: process_del_def)
    from f1 obtain n1 where n1: "\<forall>m\<ge>n1. fold_option (process_del m a) (rev (entries ?full post)) s = Some s1"
      unfolding finishes_def by blast
    from f2 obtain n2 where n2: "\<forall>m\<ge>n2. iter_pass rename_body m ?d s1 = Some s2"
      unfolding finishes_def by blast
    have fin: "finishes (\<lambda>m. fold_option (process_del m a) (rev (entries ?full (c # post))) s) ?s3"
    proof (rule finishesI)
      fix m assume "max n1 n2 \<le> m"
      then have "fold_option (process_del m a) (rev (entries ?full post)) s = Some s1"
        and "iter_pass rename_body m ?d s1 = Some s2" using n1 n2 by auto
      then show "fold_option (process_del m a) (rev (entries ?full (c # post))) s = Some ?s3"
        using proc [of m] by (simp only: ent fold_option_append) simp
    qed
    have kids3: "?s3 a = Some \<lparr>ntag = tg, nattrib = at, ntext = tx,
        kids = map addr_of pre @ map addr_of (splice_l (c # post))\<rparr>"
      using True by simp
    have hold3: "holds ?s3 x" if x: "x \<in> set pre \<union> set (splice_l (c # post))" for x
    proof -
      have "holds s2 x \<and> a \<notin> set (addrs x)"
      proof -
        from x True consider "x \<in> set pre" | "x \<in> set (lkids (to_t_l c))" | "x \<in> set (splice_l post)"
          by auto
        then show ?thesis
        proof cases
          case 1
          then have "set (addrs x) \<subseteq> set (concat (map addrs pre))" by auto
          moreover from 1 h1 have "holds s1 x" by simp
          ultimately show ?thesis
            using fr2 cpre apre by (auto intro: frame_holds')
        next
          case 2
          then have "set (addrs x) \<subseteq> set (concat (map addrs (lkids (to_t_l c))))" by auto
          then have "set (addrs x) \<subseteq> set (addrs c)"
            using addrs_unfold [of "to_t_l c"] by auto
          moreover from 2 h2 have "holds s2 x" by (cases "to_t_l c") auto
          ultimately show ?thesis using ac by auto
        next
          case 3
          then have "set (addrs x) \<subseteq> set (concat (map addrs (splice_l post)))" by auto
          then have sub: "set (addrs x) \<subseteq> set (concat (map addrs post))"
            using addrs_splice_l [of post] by auto
          moreover from 3 h1 have "holds s1 x" by simp
          ultimately show ?thesis
            using fr2 cpost apost by (auto intro: frame_holds')
        qed
      qed
      then show ?thesis by (simp add: holds_update_other)
    qed
    have "frame s s2 (a # concat (map addrs (c # post)))"
      using fr1 fr2 by (rule frame_trans) auto
    moreover have "frame s2 ?s3 [a]" by (simp add: frame_def)
    ultimately have fr3: "frame s ?s3 (a # concat (map addrs (c # post)))"
      by (rule frame_trans) auto
    have hold3': "\<forall>x\<in>set pre \<union> set (splice_l (c # post)). holds ?s3 x"
      using hold3 by blast
    show ?thesis
      by (intro exI [of _ ?s3] conjI fin kids3 hold3' fr3)
  qed
qed

lemma del_body_ok:
  assumes "holds s t" and "distinct (addrs t)"
  shows "\<exists>s1. finishes (\<lambda>m. unwrap_del_body m s (addr_of t)) s1 \<and> holds s1 (del_step t) \<and>
              frame s s1 (addrs t)"
proof (cases t)
  case (LNode a tg at tx cs)
  let ?nd = "\<lparr>ntag = tg, nattrib = at, ntext = tx, kids = map addr_of cs\<rparr>"
  from assms LNode have sa: "s a = Some ?nd" and hc: "\<forall>c\<in>set cs. holds s c"
    and d: "distinct (a # concat (map addrs cs))"
    by auto
  have "\<forall>c\<in>set cs. claude_del_at s (addr_of c) = claude_del (erase c)"
    using hc by (simp add: holds_claude_at)
  then have "filter (claude_del_at s) (map addr_of cs)
      = map addr_of (filter (\<lambda>c. claude_del (erase c)) cs)"
    by (simp add: filter_map comp_def cong: filter_cong)
  then have tp: "map (\<lambda>child. (child, index_of child (map addr_of cs)))
        (filter (claude_del_at s) (map addr_of cs)) = entries (map addr_of cs) cs"
    by (simp add: entries_def comp_def)
  have body: "unwrap_del_body m s a
      = fold_option (process_del m a) (rev (entries (map addr_of cs) cs)) s" for m
    using sa tp by (simp add: unwrap_del_body_def)
  from process_suffix [of a "[]" cs s tg at tx] d sa hc obtain s' where
    f: "finishes (\<lambda>m. fold_option (process_del m a) (rev (entries (map addr_of cs) cs)) s) s'"
    and s'a: "s' a = Some \<lparr>ntag = tg, nattrib = at, ntext = tx, kids = map addr_of (splice_l cs)\<rparr>"
    and h': "\<forall>c\<in>set (splice_l cs). holds s' c"
    and fr: "frame s s' (a # concat (map addrs cs))"
    by auto
  have 1: "finishes (\<lambda>m. unwrap_del_body m s (addr_of t)) s'"
    using f LNode by (simp add: body)
  have 2: "holds s' (del_step t)" using LNode s'a h' by simp
  have 3: "frame s s' (addrs t)" using LNode fr by simp
  from 1 2 3 show ?thesis by blast
qed

lemma simulates_del: "trav del_step t t' \<Longrightarrow> simulates unwrap_del_body t t'"
  by (rule traversal [where body = unwrap_del_body and g = del_step,
        OF del_body_ok del_step_ok])

lemma erase_splice_l: "map erase (splice_l cs) = splice (map erase cs)"
proof (induction cs)
  case Nil
  then show ?case by (simp add: splice_def)
next
  case (Cons c cs)
  have "map erase (lkids (to_t_l c)) = children (to_t (erase c))"
    by (cases c) (simp add: comp_def)
  with Cons show ?case by (simp add: splice_def)
qed

lemma length_addrs_child:
  "k \<in> set ks \<Longrightarrow> length (addrs k) \<le> length (concat (map addrs ks))"
  by (induction ks) auto

lemma length_addrs_splice_l:
  assumes "k \<in> set (splice_l cs)"
  shows "length (addrs k) \<le> length (concat (map addrs cs))"
  using assms
proof (induction cs)
  case Nil
  then show ?case by simp
next
  case (Cons c cs)
  from Cons.prems consider "claude_del (erase c)" "k \<in> set (lkids (to_t_l c))"
    | "k = c" | "k \<in> set (splice_l cs)"
    by (auto split: if_splits)
  then show ?case
  proof cases
    case 1
    then have "length (addrs k) \<le> length (concat (map addrs (lkids (to_t_l c))))"
      by (simp add: length_addrs_child)
    also have "\<dots> \<le> length (addrs c)"
      using addrs_unfold [of "to_t_l c"] by simp
    finally show ?thesis by simp
  next
    case 2
    then show ?thesis by simp
  next
    case 3
    then show ?thesis using Cons.IH by simp
  qed
qed

lemma trav_del: "\<exists>t'. trav del_step t t' \<and> erase t' = unwrap_del (erase t)"
proof (induction "length (addrs t)" arbitrary: t rule: less_induct)
  case less
  obtain a tg at tx cs where t: "t = LNode a tg at tx cs" by (cases t)
  let ?Q = "\<lambda>c c'. trav del_step c c' \<and> erase c' = unwrap_del (erase c)"
  have "\<forall>c\<in>set (splice_l cs). \<exists>c'. ?Q c c'"
  proof
    fix c assume "c \<in> set (splice_l cs)"
    then have "length (addrs c) < length (addrs t)"
      using length_addrs_splice_l [of c cs] by (simp add: t)
    then show "\<exists>c'. ?Q c c'" by (rule less)
  qed
  then have "\<exists>cs'. list_all2 ?Q (splice_l cs) cs'" by (rule list_all2_choice)
  then obtain cs' where cs': "list_all2 ?Q (splice_l cs) cs'" ..
  then have tr: "list_all2 (trav del_step) (splice_l cs) cs'"
    by (rule list_all2_mono) simp
  from cs' have "map erase cs' = map (\<lambda>c. unwrap_del (erase c)) (splice_l cs)"
    by (induction rule: list_all2_induct) simp_all
  also have "\<dots> = map unwrap_del (splice (map erase cs))"
    by (simp add: erase_splice_l [symmetric] comp_def)
  finally have e: "erase (LNode a tg at tx cs') = unwrap_del (erase t)"
    by (simp add: t)
  have "del_step t = LNode a tg at tx (splice_l cs)" by (simp add: t)
  then have "trav del_step t (LNode a tg at tx cs')"
    using tr by (rule trav.intros)
  with e show ?case by blast
qed

subsection \<open>The whole resolver\<close>

text \<open>The two passes, one after the other.\<close>

theorem in_place_refinement:
  assumes "holds s t" and "distinct (addrs t)"
  shows "\<exists>s' t'. finishes (\<lambda>m. remove_claude_tracked_changes_in_place m s (addr_of t)) s' \<and>
           holds s' t' \<and> addr_of t' = addr_of t \<and>
           erase t' = remove_claude_tracked_changes (erase t) \<and>
           frame s s' (addrs t)"
proof -
  from trav_ins [of t] obtain t1 where t1: "trav ins_step t t1"
    and e1: "erase t1 = remove_ins (erase t)" by blast
  from simulates_ins [OF t1] assms obtain s1 where
    a1: "addr_of t1 = addr_of t" and sub1: "set (addrs t1) \<subseteq> set (addrs t)"
    and d1: "distinct (addrs t1)"
    and f1: "finishes (\<lambda>m. iter_pass remove_ins_body m (addr_of t) s) s1"
    and h1: "holds s1 t1" and fr1: "frame s s1 (addrs t)"
    unfolding simulates_def by blast
  from trav_del [of t1] obtain t2 where t2: "trav del_step t1 t2"
    and e2: "erase t2 = unwrap_del (erase t1)" by blast
  from simulates_del [OF t2] d1 h1 obtain s2 where
    a2: "addr_of t2 = addr_of t1"
    and f2: "finishes (\<lambda>m. iter_pass unwrap_del_body m (addr_of t1) s1) s2"
    and h2: "holds s2 t2" and fr2: "frame s1 s2 (addrs t1)"
    unfolding simulates_def by blast
  from f1 obtain n1 where n1: "\<forall>m\<ge>n1. iter_pass remove_ins_body m (addr_of t) s = Some s1"
    unfolding finishes_def by blast
  from f2 obtain n2 where n2: "\<forall>m\<ge>n2. iter_pass unwrap_del_body m (addr_of t1) s1 = Some s2"
    unfolding finishes_def by blast
  have "finishes (\<lambda>m. remove_claude_tracked_changes_in_place m s (addr_of t)) s2"
  proof (rule finishesI)
    fix m assume "max n1 n2 \<le> m"
    then show "remove_claude_tracked_changes_in_place m s (addr_of t) = Some s2"
      using n1 n2 a1 by (simp add: remove_claude_tracked_changes_in_place_def)
  qed
  moreover have "erase t2 = remove_claude_tracked_changes (erase t)"
    by (simp add: e1 e2 remove_claude_tracked_changes_def)
  moreover have "frame s s2 (addrs t)"
    using fr1 fr2 by (rule frame_trans) (use sub1 in auto)
  ultimately show ?thesis using h2 a1 a2 by auto
qed

lemma finishes_unique:
  assumes "finishes f r" and "finishes f r'"
  shows "r = r'"
proof -
  from assms obtain n n' where n: "\<forall>m\<ge>n. f m = Some r" and n': "\<forall>m\<ge>n'. f m = Some r'"
    unfolding finishes_def by blast
  have "n \<le> max n n'" and "n' \<le> max n n'" by simp_all
  with n n' have "f (max n n') = Some r" and "f (max n n') = Some r'" by blast+
  then show ?thesis by simp
qed

text \<open>
  C5 (as amended). The resolver works in place: it returns no tree and rewrites the
  element objects it is given. On a store that holds a tree (every element object
  reached once), the run ends, with one possible final store; the object at the root
  address then holds the tree that the function \<open>remove_claude_tracked_changes\<close>
  computes from the tree held before, so the result depends on the input tree alone;
  and no object outside the tree is changed.
\<close>

theorem resolver_in_place:
  assumes "holds s t" and "distinct (addrs t)"
  shows "\<exists>s' t'. finishes (\<lambda>m. remove_claude_tracked_changes_in_place m s (addr_of t)) s' \<and>
           (\<forall>r. finishes (\<lambda>m. remove_claude_tracked_changes_in_place m s (addr_of t)) r
                \<longrightarrow> r = s') \<and>
           holds s' t' \<and> addr_of t' = addr_of t \<and>
           erase t' = remove_claude_tracked_changes (erase t) \<and>
           frame s s' (addrs t)"
proof -
  from in_place_refinement [OF assms] obtain s' t' where
    r: "finishes (\<lambda>m. remove_claude_tracked_changes_in_place m s (addr_of t)) s'"
      "holds s' t'" "addr_of t' = addr_of t"
      "erase t' = remove_claude_tracked_changes (erase t)" "frame s s' (addrs t)"
    by blast
  have u: "\<forall>r. finishes (\<lambda>m. remove_claude_tracked_changes_in_place m s (addr_of t)) r \<longrightarrow> r = s'"
  proof (intro allI impI)
    fix r assume "finishes (\<lambda>m. remove_claude_tracked_changes_in_place m s (addr_of t)) r"
    then show "r = s'" using r(1) by (rule finishes_unique)
  qed
  show ?thesis
    by (intro exI [of _ s'] exI [of _ t'] conjI r u)
qed

theorem resolver_in_place_witness:
  "holds small_store small_tree \<and> distinct (addrs small_tree) \<and>
   (\<exists>s' t'. finishes (\<lambda>m. remove_claude_tracked_changes_in_place m small_store 0) s' \<and>
      holds s' t' \<and> addr_of t' = 0 \<and>
      erase t' = Element document_tag [] None [Element t_tag [] (Some ''x'') []])"
proof -
  have h: "holds small_store small_tree"
    by (simp add: small_store_def small_tree_def)
  have d: "distinct (addrs small_tree)"
    by (simp add: small_tree_def)
  have e: "remove_claude_tracked_changes (erase small_tree)
      = Element document_tag [] None [Element t_tag [] (Some ''x'') []]"
    by (simp add: small_tree_def eval_defs example_defs)
  have a: "addr_of small_tree = 0" by (simp add: small_tree_def)
  from resolver_in_place [OF h d] obtain s' t' where
    "finishes (\<lambda>m. remove_claude_tracked_changes_in_place m small_store (addr_of small_tree)) s'"
    and "holds s' t'" and "addr_of t' = addr_of small_tree"
    and "erase t' = remove_claude_tracked_changes (erase small_tree)"
    by blast
  then have "finishes (\<lambda>m. remove_claude_tracked_changes_in_place m small_store 0) s' \<and>
      holds s' t' \<and> addr_of t' = 0 \<and>
      erase t' = Element document_tag [] None [Element t_tag [] (Some ''x'') []]"
    by (simp add: e a)
  then have "\<exists>s' t'. finishes (\<lambda>m. remove_claude_tracked_changes_in_place m small_store 0) s' \<and>
      holds s' t' \<and> addr_of t' = 0 \<and>
      erase t' = Element document_tag [] None [Element t_tag [] (Some ''x'') []]"
    by (intro exI)
  with h d show ?thesis by (intro conjI)
qed

text \<open>
  The input tree is mutated: after the run the root object has another child list and
  the deleted-text object another tag.
\<close>

theorem resolver_in_place_counterexample:
  "object_after (Some small_store) 0
     = Some \<lparr>ntag = document_tag, nattrib = [], ntext = None, kids = [1, 2]\<rparr> \<and>
   object_after (remove_claude_tracked_changes_in_place 10 small_store 0) 0
     = Some \<lparr>ntag = document_tag, nattrib = [], ntext = None, kids = [3]\<rparr> \<and>
   object_after (Some small_store) 3
     = Some \<lparr>ntag = deltext_tag, nattrib = [], ntext = Some ''x'', kids = []\<rparr> \<and>
   object_after (remove_claude_tracked_changes_in_place 10 small_store 0) 3
     = Some \<lparr>ntag = t_tag, nattrib = [], ntext = Some ''x'', kids = []\<rparr>"
  by (simp add: object_after_def remove_claude_tracked_changes_in_place_def small_store_def
      eval_nat_numeral remove_ins_body_def unwrap_del_body_def rename_body_def process_del_def
      claude_ins_at_def claude_del_at_def remove_child_def insert_child_def example_defs)

end
